theory Spec2Isabelle
  imports Main "HOL-Library.AList" "HOL-Library.Char_ord" "HOL-Library.List_Lexorder"
begin

section \<open>Characters and strings of the step registry\<close>

text \<open>
  The registry of \<^verbatim>\<open>manage_step_seq.py\<close> works on Python strings. They are modelled as
  \<^typ>\<open>string\<close>, and the character classes follow Python's \<^verbatim>\<open>str\<close> methods on the ASCII
  code points: \<^verbatim>\<open>isupper\<close> is A-Z, \<^verbatim>\<open>islower\<close> is a-z, \<^verbatim>\<open>isdigit\<close> is 0-9 and
  \<^verbatim>\<open>isspace\<close> is the code points 9-13, 28-31 and 32. Code points above 127 belong to no
  class in this model and are left alone by \<^verbatim>\<open>upper\<close> and \<^verbatim>\<open>lower\<close>. Python gives
  some of them a class (U+0085 and U+00A0 are whitespace, the accented letters have a
  case, and \<^verbatim>\<open>upper\<close> may change the length of a string), so the model stands for the
  program on strings of ASCII characters.
\<close>

definition ascii_lowercase :: string where
  "ascii_lowercase = ''abcdefghijklmnopqrstuvwxyz''"

definition ascii_uppercase :: string where
  "ascii_uppercase = ''ABCDEFGHIJKLMNOPQRSTUVWXYZ''"

definition digits :: string where
  "digits = ''0123456789''"

definition whitespace :: string where
  "whitespace = [CHR 0x09, CHR 0x0A, CHR 0x0B, CHR 0x0C, CHR 0x0D,
                 CHR 0x1C, CHR 0x1D, CHR 0x1E, CHR 0x1F, CHR '' '']"

definition isupper :: "char \<Rightarrow> bool" where
  "isupper ch \<longleftrightarrow> ch \<in> set ascii_uppercase"

definition islower :: "char \<Rightarrow> bool" where
  "islower ch \<longleftrightarrow> ch \<in> set ascii_lowercase"

definition isdigit :: "char \<Rightarrow> bool" where
  "isdigit ch \<longleftrightarrow> ch \<in> set digits"

definition isspace :: "char \<Rightarrow> bool" where
  "isspace ch \<longleftrightarrow> ch \<in> set whitespace"

definition upper_char :: "char \<Rightarrow> char" where
  "upper_char ch = (case map_of (zip ascii_lowercase ascii_uppercase) ch of
                      Some u \<Rightarrow> u | None \<Rightarrow> ch)"

definition lower_char :: "char \<Rightarrow> char" where
  "lower_char ch = (case map_of (zip ascii_uppercase ascii_lowercase) ch of
                      Some l \<Rightarrow> l | None \<Rightarrow> ch)"

text \<open>\<^verbatim>\<open>s.upper()\<close> and \<^verbatim>\<open>s.lower()\<close>.\<close>

definition upper :: "string \<Rightarrow> string" where
  "upper s = map upper_char s"

definition lower :: "string \<Rightarrow> string" where
  "lower s = map lower_char s"

text \<open>\<^verbatim>\<open>s.strip()\<close>: whitespace removed at both ends.\<close>

definition strip :: "string \<Rightarrow> string" where
  "strip s = rev (dropWhile isspace (rev (dropWhile isspace s)))"

text \<open>
  \<^verbatim>\<open>s.split()\<close> without argument: the maximal runs of non-whitespace characters, in
  order; no empty string is produced. The first argument is the word read so far.
\<close>

fun split_words :: "string \<Rightarrow> string \<Rightarrow> string list" where
  "split_words cur [] = (if cur = [] then [] else [cur])"
| "split_words cur (ch # rest) =
     (if isspace ch
      then (if cur = [] then split_words [] rest else cur # split_words [] rest)
      else split_words (cur @ [ch]) rest)"

definition split :: "string \<Rightarrow> string list" where
  "split s = split_words [] s"

text \<open>\<^verbatim>\<open>sep.join(parts)\<close>.\<close>

fun join :: "string \<Rightarrow> string list \<Rightarrow> string" where
  "join sep [] = []"
| "join sep [p] = p"
| "join sep (p # q # ps) = p @ sep @ join sep (q # ps)"

section \<open>Errors\<close>

text \<open>
  Every exception the program can raise is a value. The first five are the
  \<^verbatim>\<open>ValueError\<close>s of \<^verbatim>\<open>normalize_step_name\<close>, told apart by their message; the next two
  are those of \<^verbatim>\<open>canonicalize_sequence\<close>; \<open>InconsistentJSON s q seq\<close> is the one of
  \<^verbatim>\<open>build_reverse_cache\<close> (step \<open>s\<close> appears under \<open>q\<close> and \<open>seq\<close>). \<open>EOFError\<close> is raised
  by \<^verbatim>\<open>input\<close> at the end of the standard input, \<open>JSONDecodeError\<close> by \<^verbatim>\<open>json.load\<close>,
  \<open>OSError\<close> by a failing file operation, \<open>KeyError\<close> by the subscript of a dictionary
  at a key it does not have.
\<close>

datatype error =
    StepNameEmpty
  | LowercaseOnlyAndRemovePunctuation
  | LowercaseOnly
  | RemovePunctuation
  | InvalidStepName
  | SequenceEmpty
  | UnknownTokens "string list"
  | InconsistentJSON string string string
  | EOFError
  | JSONDecodeError
  | OSError
  | KeyError

section \<open>Validation and canonicalization\<close>

text \<open>
  \<^verbatim>\<open>_STEP_NAME_RE = ^[a-z0-9]+(?: [a-z0-9]+)*$\<close>, used with \<^verbatim>\<open>fullmatch\<close>. The matcher
  reads the string once; its flag says whether the word being read already has a
  character. A space is accepted only after a non-empty word, and the string must end
  inside a non-empty word.
\<close>

definition in_az09 :: "char \<Rightarrow> bool" where
  "in_az09 ch \<longleftrightarrow> ch \<in> set (ascii_lowercase @ digits)"

fun step_name_re :: "bool \<Rightarrow> string \<Rightarrow> bool" where
  "step_name_re seen [] = seen"
| "step_name_re seen (ch # rest) =
     (if in_az09 ch then step_name_re True rest
      else if ch = CHR '' '' \<and> seen then step_name_re False rest
      else False)"

definition step_name_re_fullmatch :: "string \<Rightarrow> bool" where
  "step_name_re_fullmatch s = step_name_re False s"

definition normalize_step_name :: "string \<Rightarrow> error + string" where
  "normalize_step_name raw =
     (let s = join '' '' (split (strip raw)) in
      if s = [] then Inl StepNameEmpty
      else if \<not> step_name_re_fullmatch s then
        (let has_upper = list_ex isupper raw;
             has_forbidden = list_ex (\<lambda>ch. \<not> (islower ch \<or> isdigit ch \<or> isspace ch)) raw
         in if has_upper \<and> has_forbidden then Inl LowercaseOnlyAndRemovePunctuation
            else if has_upper then Inl LowercaseOnly
            else if has_forbidden then Inl RemovePunctuation
            else Inl InvalidStepName)
      else Inr s)"

definition ALLOWED_TOKENS :: "string list" where
  "ALLOWED_TOKENS =
     [''UP'', ''DOWN'', ''LEFT'', ''RIGHT'', ''ENTER'', ''OK'', ''ESC'', ''BACK'', ''TAB'',
      ''SPACE'', ''WAIT'', ''WAIT1'', ''WAIT2'', ''WAIT3'', ''WAIT5'', ''WAIT10'']"

text \<open>
  \<^verbatim>\<open>re.split(r"[,\s]+", seq_str)\<close>: the pieces between the maximal runs of commas and
  whitespace. A run at the start or at the end of the string leaves an empty piece there,
  and the empty string splits into one empty piece. The flag says whether the reader is
  inside a run of separators; the second argument is the piece read so far.
\<close>

definition is_sep :: "char \<Rightarrow> bool" where
  "is_sep ch \<longleftrightarrow> ch = CHR '','' \<or> isspace ch"

fun re_split_from :: "bool \<Rightarrow> string \<Rightarrow> string \<Rightarrow> string list" where
  "re_split_from in_run cur [] = [cur]"
| "re_split_from in_run cur (ch # rest) =
     (if is_sep ch
      then (if in_run then re_split_from True [] rest else cur # re_split_from True [] rest)
      else re_split_from False (cur @ [ch]) rest)"

definition re_split :: "string \<Rightarrow> string list" where
  "re_split s = re_split_from False [] s"

definition canonicalize_sequence :: "string \<Rightarrow> error + string" where
  "canonicalize_sequence seq_str =
     (let tokens = map (\<lambda>t. upper (strip t)) (filter (\<lambda>t. strip t \<noteq> []) (re_split seq_str)) in
      if tokens = [] then Inl SequenceEmpty
      else
        (let unknown = (if ALLOWED_TOKENS \<noteq> []
                        then filter (\<lambda>t. t \<notin> set ALLOWED_TOKENS) tokens else [])
         in if unknown \<noteq> [] then Inl (UnknownTokens unknown)
            else Inr (join '','' tokens)))"

section \<open>The separators of a raw sequence\<close>

text \<open>
  A raw sequence is spelled as a leading run of separators followed by tokens, each with
  the run of separators after it. A token is not empty and has no comma and no
  whitespace; the run after a token is not empty, except after the last token.
\<close>

definition token_like :: "string \<Rightarrow> bool" where
  "token_like t \<longleftrightarrow> t \<noteq> [] \<and> list_all (\<lambda>ch. \<not> is_sep ch) t"

definition sep_run :: "string \<Rightarrow> bool" where
  "sep_run s \<longleftrightarrow> list_all is_sep s"

fun well_separated :: "(string \<times> string) list \<Rightarrow> bool" where
  "well_separated [] = True"
| "well_separated [(t, s)] = (token_like t \<and> sep_run s)"
| "well_separated ((t, s) # p # ps) =
     (token_like t \<and> sep_run s \<and> s \<noteq> [] \<and> well_separated (p # ps))"

definition spell :: "string \<Rightarrow> (string \<times> string) list \<Rightarrow> string" where
  "spell lead pairs = lead @ concat (map (\<lambda>(t, s). t @ s) pairs)"

text \<open>The pieces of \<^verbatim>\<open>re.split\<close> that \<^verbatim>\<open>canonicalize_sequence\<close> keeps.\<close>

definition raw_tokens :: "string list \<Rightarrow> string list" where
  "raw_tokens pieces = filter (\<lambda>t. strip t \<noteq> []) pieces"

section \<open>The document\<close>

text \<open>
  The JSON document is an object with the fields \<^verbatim>\<open>version\<close> and \<^verbatim>\<open>map\<close>. The map is a
  Python dictionary from sequence keys to lists of step names. A dictionary keeps its
  keys in insertion order and the loops of the program run in that order, so it is an
  association list; its keys are distinct. Lookup is \<^const>\<open>map_of\<close>, the assignment
  \<^verbatim>\<open>m[k] = v\<close> is \<^const>\<open>AList.update\<close> (in place for a key that is there, at the end for a
  new key), and \<^verbatim>\<open>del m[k]\<close> is \<^const>\<open>AList.delete\<close>.
\<close>

type_synonym dict = "(string \<times> string list) list"

record db =
  version :: int
  dbmap :: dict

definition VERSION :: int where
  "VERSION = 1"

text \<open>The keys under which a step is listed, and all the steps of a map.\<close>

definition owners :: "dict \<Rightarrow> string \<Rightarrow> string list" where
  "owners m s = map fst (filter (\<lambda>(seq, steps). s \<in> set steps) m)"

definition all_steps :: "dict \<Rightarrow> string list" where
  "all_steps m = concat (map snd m)"

text \<open>No step name is listed under two different sequence keys.\<close>

definition one_owner :: "dict \<Rightarrow> bool" where
  "one_owner m \<longleftrightarrow>
     list_all (\<lambda>s. list_all (\<lambda>q. list_all (\<lambda>r. q = r) (owners m s)) (owners m s)) (all_steps m)"

text \<open>
  \<^verbatim>\<open>build_reverse_cache\<close>: the inner loop over the steps of one sequence, the outer loop
  over the items of the map, and the function itself.
\<close>

fun cache_steps :: "string \<Rightarrow> string list \<Rightarrow> (string \<rightharpoonup> string) \<Rightarrow> error + (string \<rightharpoonup> string)" where
  "cache_steps seq [] cache = Inr cache"
| "cache_steps seq (s # steps) cache =
     (case cache s of
        None \<Rightarrow> cache_steps seq steps (cache(s \<mapsto> seq))
      | Some q \<Rightarrow> if q \<noteq> seq then Inl (InconsistentJSON s q seq)
                  else cache_steps seq steps (cache(s \<mapsto> seq)))"

fun cache_items :: "dict \<Rightarrow> (string \<rightharpoonup> string) \<Rightarrow> error + (string \<rightharpoonup> string)" where
  "cache_items [] cache = Inr cache"
| "cache_items ((seq, steps) # items) cache =
     (case cache_steps seq steps cache of
        Inl e \<Rightarrow> Inl e
      | Inr cache' \<Rightarrow> cache_items items cache')"

definition build_reverse_cache :: "db \<Rightarrow> error + (string \<rightharpoonup> string)" where
  "build_reverse_cache d = cache_items (dbmap d) Map.empty"

section \<open>Files, standard input and persistence\<close>

text \<open>
  A file holds the JSON text of a document, whole, or only its first \<open>n\<close> characters when
  a write was cut short (\<open>Torn d n\<close>, a proper prefix of the text \<^verbatim>\<open>json.dump\<close> writes,
  which \<^verbatim>\<open>json.load\<close> rejects). A write that fails only at the final newline leaves a
  text that \<^verbatim>\<open>json.load\<close> accepts: the temporary file is then whole, as it is in the
  trace of \<open>FailReplace\<close>. The world of one run is the file system, the lines still to be read from the
  standard input, the fault the next save will meet, and the name \<^verbatim>\<open>mkstemp\<close> will give
  to the temporary file.
\<close>

datatype file_content = Whole db | Torn db nat

datatype fault = NoFault | FailMkstemp | FailWrite nat | FailReplace

record world =
  files :: "string \<rightharpoonup> file_content"
  stdin :: "string list"
  fault :: fault
  tmp_name :: string

text \<open>
  \<^verbatim>\<open>load_db\<close>. The two \<^verbatim>\<open>setdefault\<close> calls fill in a missing field; a document of type
  \<^typ>\<open>db\<close> has both fields.
\<close>

definition load_db :: "string \<Rightarrow> world \<Rightarrow> error + db" where
  "load_db path w =
     (case files w path of
        None \<Rightarrow> Inr \<lparr>version = VERSION, dbmap = []\<rparr>
      | Some (Whole d) \<Rightarrow> Inr d
      | Some (Torn d n) \<Rightarrow> Inl JSONDecodeError)"

text \<open>
  The file operations of \<^verbatim>\<open>atomic_save\<close>: \<^verbatim>\<open>os.replace\<close> moves the source over the
  destination in one step, and the \<^verbatim>\<open>finally\<close> block removes the temporary file if it is
  still there.
\<close>

definition os_replace :: "string \<Rightarrow> string \<Rightarrow> (string \<rightharpoonup> file_content) \<Rightarrow> (string \<rightharpoonup> file_content)" where
  "os_replace src dst fs = (if src = dst then fs else fs(dst := fs src, src := None))"

definition remove_if_exists :: "string \<Rightarrow> (string \<rightharpoonup> file_content) \<Rightarrow> (string \<rightharpoonup> file_content)" where
  "remove_if_exists tmp fs = (if fs tmp \<noteq> None then fs(tmp := None) else fs)"

text \<open>
  The states of the file system after each step of \<^verbatim>\<open>atomic_save\<close>, in order: the empty
  temporary file, the temporary file after the write, the replace, and the cleanup. A
  step that fails raises and changes nothing; the cleanup runs in every case but the one
  where no temporary file was ever made.
\<close>

definition atomic_save_trace :: "string \<Rightarrow> db \<Rightarrow> world \<Rightarrow> (string \<rightharpoonup> file_content) list" where
  "atomic_save_trace path d w =
     (let fs = files w; tmp = tmp_name w;
          created = fs(tmp \<mapsto> Torn d 0);
          written = fs(tmp \<mapsto> Whole d);
          replaced = os_replace tmp path written
      in case fault w of
           FailMkstemp \<Rightarrow> []
         | FailWrite n \<Rightarrow> [created, fs(tmp \<mapsto> Torn d n), remove_if_exists tmp (fs(tmp \<mapsto> Torn d n))]
         | FailReplace \<Rightarrow> [created, written, remove_if_exists tmp written]
         | NoFault \<Rightarrow> [created, written, replaced, remove_if_exists tmp replaced])"

definition atomic_save :: "string \<Rightarrow> db \<Rightarrow> world \<Rightarrow> (error + unit) \<times> world" where
  "atomic_save path d w =
     ((if fault w = NoFault then Inr () else Inl OSError),
      w\<lparr>files := last (files w # atomic_save_trace path d w)\<rparr>)"

text \<open>
  \<^verbatim>\<open>input\<close> returns the next line of the standard input and raises at its end. The
  prompt functions ask again until the answer is valid, so they read lines until one
  parses; the messages they print are not modelled.
\<close>

definition input :: "world \<Rightarrow> (error + string) \<times> world" where
  "input w = (case stdin w of
                [] \<Rightarrow> (Inl EOFError, w)
              | line # rest \<Rightarrow> (Inr line, w\<lparr>stdin := rest\<rparr>))"

fun prompt_until :: "(string \<Rightarrow> error + string) \<Rightarrow> string list \<Rightarrow> (error + string) \<times> string list" where
  "prompt_until parse [] = (Inl EOFError, [])"
| "prompt_until parse (line # rest) =
     (case parse (strip line) of
        Inr v \<Rightarrow> (Inr v, rest)
      | Inl e \<Rightarrow> prompt_until parse rest)"

definition prompt_valid_step_name :: "world \<Rightarrow> (error + string) \<times> world" where
  "prompt_valid_step_name w =
     (case prompt_until normalize_step_name (stdin w) of (r, rest) \<Rightarrow> (r, w\<lparr>stdin := rest\<rparr>))"

definition prompt_sequence :: "world \<Rightarrow> (error + string) \<times> world" where
  "prompt_sequence w =
     (case prompt_until canonicalize_sequence (stdin w) of (r, rest) \<Rightarrow> (r, w\<lparr>stdin := rest\<rparr>))"

definition prompt_step :: "world \<Rightarrow> (error + string) \<times> world" where
  "prompt_step w = prompt_valid_step_name w"

definition confirm :: "bool \<Rightarrow> world \<Rightarrow> (error + bool) \<times> world" where
  "confirm default_no w =
     (case input w of
        (Inl e, w') \<Rightarrow> (Inl e, w')
      | (Inr line, w') \<Rightarrow>
          (let ans = lower (strip line) in
           if ans = [] then (Inr (\<not> default_no), w')
           else (Inr (ans = ''y'' \<or> ans = ''yes''), w')))"

section \<open>Operations\<close>

text \<open>
  An operation takes the path of the document and the world, and returns the world it
  leaves together with the exception it raised or a report of what it printed last.
\<close>

datatype report =
    NoChange string string
  | SequenceRejected error
  | StepRejected error
  | Added string string
  | StepNotFound string
  | Reassigned string string string
  | StepExists string
  | Renamed string string
  | Cancelled
  | Removed string
  | Listing "(string \<times> string list) list"
  | ShowSequence string "string list"
  | ShowStep string "string option"
  | GcRemoved nat

text \<open>The truth value Python gives to \<^verbatim>\<open>None\<close> or a string.\<close>

definition truthy :: "string option \<Rightarrow> bool" where
  "truthy v = (case v of None \<Rightarrow> False | Some s \<Rightarrow> s \<noteq> [])"

text \<open>
  \<^verbatim>\<open>lst = db["map"].setdefault(seq, [])\<close> followed by the guarded \<^verbatim>\<open>append\<close> and
  \<^verbatim>\<open>sort\<close>, as \<^verbatim>\<open>op_add\<close> and \<^verbatim>\<open>op_reassign\<close> both do.
\<close>

definition setdefault_append :: "dict \<Rightarrow> string \<Rightarrow> string \<Rightarrow> dict" where
  "setdefault_append m seq step =
     (let m1 = (case map_of m seq of None \<Rightarrow> m @ [(seq, [])] | Some l \<Rightarrow> m);
          lst = (case map_of m1 seq of None \<Rightarrow> [] | Some l \<Rightarrow> l)
      in if step \<notin> set lst then AList.update seq (sort (lst @ [step])) m1 else m1)"

definition save_report :: "string \<Rightarrow> db \<Rightarrow> report \<Rightarrow> world \<Rightarrow> (error + report) \<times> world" where
  "save_report db_path d r w =
     (case atomic_save db_path d w of
        (Inl e, w') \<Rightarrow> (Inl e, w')
      | (Inr u, w') \<Rightarrow> (Inr r, w'))"

text \<open>
  The \<^verbatim>\<open>while True\<close> loop of \<^verbatim>\<open>op_add\<close>: each round asks for a valid name (itself a loop
  over the input) and ends the loop when the name is not in the reverse cache. Both loops
  read one line per round, so they are one recursion over the lines.
\<close>

fun pick_new_name :: "(string \<rightharpoonup> string) \<Rightarrow> string list \<Rightarrow> (error + string) \<times> string list" where
  "pick_new_name step_to_seq [] = (Inl EOFError, [])"
| "pick_new_name step_to_seq (line # rest) =
     (case normalize_step_name (strip line) of
        Inl e \<Rightarrow> pick_new_name step_to_seq rest
      | Inr new_name \<Rightarrow>
          if step_to_seq new_name \<noteq> None then pick_new_name step_to_seq rest
          else (Inr new_name, rest))"

text \<open>\<^verbatim>\<open>op_add\<close> from the lookup of the step on.\<close>

definition add_step ::
  "string \<Rightarrow> db \<Rightarrow> (string \<rightharpoonup> string) \<Rightarrow> string \<Rightarrow> string \<Rightarrow> world \<Rightarrow> (error + report) \<times> world" where
  "add_step db_path d step_to_seq step seq w =
     (let existing = step_to_seq step in
      if existing = Some seq then (Inr (NoChange step seq), w)
      else
        (case (if truthy existing \<and> existing \<noteq> Some seq
               then (case pick_new_name step_to_seq (stdin w) of
                       (r, rest) \<Rightarrow> (r, w\<lparr>stdin := rest\<rparr>))
               else (Inr step, w)) of
           (Inl e, w1) \<Rightarrow> (Inl e, w1)
         | (Inr step', w1) \<Rightarrow>
             save_report db_path (d\<lparr>dbmap := setdefault_append (dbmap d) seq step'\<rparr>)
               (Added step' seq) w1))"

definition op_add :: "string \<Rightarrow> world \<Rightarrow> (error + report) \<times> world" where
  "op_add db_path w =
     (case load_db db_path w of
        Inl e \<Rightarrow> (Inl e, w)
      | Inr d \<Rightarrow>
     (case build_reverse_cache d of
        Inl e \<Rightarrow> (Inl e, w)
      | Inr step_to_seq \<Rightarrow>
     (case prompt_valid_step_name w of
        (Inl e, w1) \<Rightarrow> (Inl e, w1)
      | (Inr step, w1) \<Rightarrow>
     (case input w1 of
        (Inl e, w2) \<Rightarrow> (Inl e, w2)
      | (Inr line, w2) \<Rightarrow>
     (case canonicalize_sequence (strip line) of
        Inl e \<Rightarrow> (Inr (SequenceRejected e), w2)
      | Inr seq \<Rightarrow> add_step db_path d step_to_seq step seq w2)))))"

text \<open>
  An optional argument of \<^verbatim>\<open>op_reassign\<close> and \<^verbatim>\<open>op_rename\<close>: a missing, empty or
  invalid step name is asked for; so is a missing, empty or invalid sequence.
\<close>

definition step_from_arg :: "string option \<Rightarrow> world \<Rightarrow> (error + string) \<times> world" where
  "step_from_arg step w =
     (if \<not> truthy step then prompt_step w
      else (case step of
              None \<Rightarrow> prompt_step w
            | Some raw \<Rightarrow>
                (case normalize_step_name raw of
                   Inr step_n \<Rightarrow> (Inr step_n, w)
                 | Inl e \<Rightarrow> prompt_step w)))"

definition seq_from_arg :: "string option \<Rightarrow> world \<Rightarrow> (error + string) \<times> world" where
  "seq_from_arg new_seq_raw w =
     (if \<not> truthy new_seq_raw then prompt_sequence w
      else (case new_seq_raw of
              None \<Rightarrow> prompt_sequence w
            | Some raw \<Rightarrow>
                (case canonicalize_sequence raw of
                   Inr new_seq \<Rightarrow> (Inr new_seq, w)
                 | Inl e \<Rightarrow> prompt_sequence w)))"

text \<open>
  A step that is not in the reverse cache is asked for once more; \<open>Inl name\<close> is the
  name that was not found the second time.
\<close>

definition known_step ::
  "(string \<rightharpoonup> string) \<Rightarrow> string \<Rightarrow> world \<Rightarrow> (error + (string + string)) \<times> world" where
  "known_step step_to_seq step_n w =
     (if step_to_seq step_n = None
      then (case prompt_step w of
              (Inl e, w1) \<Rightarrow> (Inl e, w1)
            | (Inr again, w1) \<Rightarrow>
                if step_to_seq again = None then (Inr (Inl again), w1)
                else (Inr (Inr again), w1))
      else (Inr (Inr step_n), w))"

text \<open>\<^verbatim>\<open>op_reassign\<close> from the lookup of the old sequence on.\<close>

definition move_step ::
  "string \<Rightarrow> db \<Rightarrow> (string \<rightharpoonup> string) \<Rightarrow> string \<Rightarrow> string \<Rightarrow> world \<Rightarrow> (error + report) \<times> world" where
  "move_step db_path d step_to_seq step_n new_seq w =
     (case step_to_seq step_n of
        None \<Rightarrow> (Inl KeyError, w)
      | Some old_seq \<Rightarrow>
          if old_seq = new_seq then (Inr (NoChange step_n new_seq), w)
          else
            (case map_of (dbmap d) old_seq of
               None \<Rightarrow> (Inl KeyError, w)
             | Some old_list \<Rightarrow>
                 (let m1 = AList.update old_seq (filter (\<lambda>s. s \<noteq> step_n) old_list) (dbmap d);
                      m2 = setdefault_append m1 new_seq step_n
                  in save_report db_path (d\<lparr>dbmap := m2\<rparr>)
                       (Reassigned step_n old_seq new_seq) w)))"

definition op_reassign ::
  "string \<Rightarrow> string option \<Rightarrow> string option \<Rightarrow> world \<Rightarrow> (error + report) \<times> world" where
  "op_reassign db_path step new_seq_raw w =
     (case load_db db_path w of
        Inl e \<Rightarrow> (Inl e, w)
      | Inr d \<Rightarrow>
     (case build_reverse_cache d of
        Inl e \<Rightarrow> (Inl e, w)
      | Inr step_to_seq \<Rightarrow>
     (case step_from_arg step w of
        (Inl e, w1) \<Rightarrow> (Inl e, w1)
      | (Inr step_n, w1) \<Rightarrow>
     (case known_step step_to_seq step_n w1 of
        (Inl e, w2) \<Rightarrow> (Inl e, w2)
      | (Inr (Inl missing), w2) \<Rightarrow> (Inr (StepNotFound missing), w2)
      | (Inr (Inr step_n), w2) \<Rightarrow>
     (case seq_from_arg new_seq_raw w2 of
        (Inl e, w3) \<Rightarrow> (Inl e, w3)
      | (Inr new_seq, w3) \<Rightarrow> move_step db_path d step_to_seq step_n new_seq w3)))))"

text \<open>
  In \<^verbatim>\<open>op_rename\<close> a new name that is in the reverse cache is asked for once more;
  \<open>Inl name\<close> is the name that was taken the second time.
\<close>

definition unused_step ::
  "(string \<rightharpoonup> string) \<Rightarrow> string \<Rightarrow> world \<Rightarrow> (error + (string + string)) \<times> world" where
  "unused_step step_to_seq new_n w =
     (if step_to_seq new_n \<noteq> None
      then (case prompt_step w of
              (Inl e, w1) \<Rightarrow> (Inl e, w1)
            | (Inr again, w1) \<Rightarrow>
                if step_to_seq again \<noteq> None then (Inr (Inl again), w1)
                else (Inr (Inr again), w1))
      else (Inr (Inr new_n), w))"

text \<open>\<^verbatim>\<open>op_rename\<close> from the lookup of the sequence on.\<close>

definition rename_step ::
  "string \<Rightarrow> db \<Rightarrow> (string \<rightharpoonup> string) \<Rightarrow> string \<Rightarrow> string \<Rightarrow> world \<Rightarrow> (error + report) \<times> world" where
  "rename_step db_path d step_to_seq old_n new_n w =
     (case step_to_seq old_n of
        None \<Rightarrow> (Inl KeyError, w)
      | Some seq \<Rightarrow>
          (case map_of (dbmap d) seq of
             None \<Rightarrow> (Inl KeyError, w)
           | Some lst \<Rightarrow>
               (let renamed = map (\<lambda>s. if s = old_n then new_n else s) lst
                in save_report db_path (d\<lparr>dbmap := AList.update seq (sort renamed) (dbmap d)\<rparr>)
                     (Renamed old_n new_n) w)))"

definition op_rename ::
  "string \<Rightarrow> string option \<Rightarrow> string option \<Rightarrow> world \<Rightarrow> (error + report) \<times> world" where
  "op_rename db_path old new w =
     (case load_db db_path w of
        Inl e \<Rightarrow> (Inl e, w)
      | Inr d \<Rightarrow>
     (case build_reverse_cache d of
        Inl e \<Rightarrow> (Inl e, w)
      | Inr step_to_seq \<Rightarrow>
     (case step_from_arg old w of
        (Inl e, w1) \<Rightarrow> (Inl e, w1)
      | (Inr old_n, w1) \<Rightarrow>
     (case known_step step_to_seq old_n w1 of
        (Inl e, w2) \<Rightarrow> (Inl e, w2)
      | (Inr (Inl missing), w2) \<Rightarrow> (Inr (StepNotFound missing), w2)
      | (Inr (Inr old_n), w2) \<Rightarrow>
     (case step_from_arg new w2 of
        (Inl e, w3) \<Rightarrow> (Inl e, w3)
      | (Inr new_n, w3) \<Rightarrow>
     (case unused_step step_to_seq new_n w3 of
        (Inl e, w4) \<Rightarrow> (Inl e, w4)
      | (Inr (Inl taken), w4) \<Rightarrow> (Inr (StepExists taken), w4)
      | (Inr (Inr new_n), w4) \<Rightarrow> rename_step db_path d step_to_seq old_n new_n w4))))))"

text \<open>
  \<^verbatim>\<open>op_remove\<close> after the first confirmation: the step leaves the list of its sequence,
  and an emptied entry is deleted when \<^verbatim>\<open>assume_yes\<close> holds or the second confirmation
  is given.
\<close>

definition remove_step ::
  "string \<Rightarrow> db \<Rightarrow> string \<Rightarrow> string \<Rightarrow> bool \<Rightarrow> world \<Rightarrow> (error + report) \<times> world" where
  "remove_step db_path d step_n seq assume_yes w =
     (case map_of (dbmap d) seq of
        None \<Rightarrow> (Inl KeyError, w)
      | Some lst \<Rightarrow>
          (let m1 = AList.update seq (filter (\<lambda>s. s \<noteq> step_n) lst) (dbmap d) in
           if filter (\<lambda>s. s \<noteq> step_n) lst = []
           then (case (if assume_yes then (Inr True, w) else confirm True w) of
                   (Inl e, w1) \<Rightarrow> (Inl e, w1)
                 | (Inr yes, w1) \<Rightarrow>
                     save_report db_path
                       (d\<lparr>dbmap := (if yes then AList.delete seq m1 else m1)\<rparr>)
                       (Removed step_n) w1)
           else save_report db_path (d\<lparr>dbmap := m1\<rparr>) (Removed step_n) w))"

definition op_remove :: "string \<Rightarrow> string \<Rightarrow> bool \<Rightarrow> world \<Rightarrow> (error + report) \<times> world" where
  "op_remove db_path step assume_yes w =
     (case load_db db_path w of
        Inl e \<Rightarrow> (Inl e, w)
      | Inr d \<Rightarrow>
     (case build_reverse_cache d of
        Inl e \<Rightarrow> (Inl e, w)
      | Inr step_to_seq \<Rightarrow>
     (case normalize_step_name step of
        Inl e \<Rightarrow> (Inr (StepRejected e), w)
      | Inr step_n \<Rightarrow>
          (let seq = step_to_seq step_n in
           if \<not> truthy seq then (Inr (StepNotFound step_n), w)
           else
             (case seq of
                None \<Rightarrow> (Inr (StepNotFound step_n), w)
              | Some seq \<Rightarrow>
                  (case (if \<not> assume_yes then confirm True w else (Inr True, w)) of
                     (Inl e, w1) \<Rightarrow> (Inl e, w1)
                   | (Inr yes, w1) \<Rightarrow>
                       if \<not> yes then (Inr Cancelled, w1)
                       else remove_step db_path d step_n seq assume_yes w1))))))"


definition op_show :: "string \<Rightarrow> string \<Rightarrow> world \<Rightarrow> (error + report) \<times> world" where
  "op_show db_path query w =
     (case load_db db_path w of
        Inl e \<Rightarrow> (Inl e, w)
      | Inr d \<Rightarrow>
          (let q = strip query in
           case canonicalize_sequence q of
             Inr key \<Rightarrow>
               (Inr (ShowSequence key (case map_of (dbmap d) key of
                                         None \<Rightarrow> [] | Some steps \<Rightarrow> steps)), w)
           | Inl e \<Rightarrow>
               (case normalize_step_name q of
                  Inl e \<Rightarrow> (Inr (StepRejected e), w)
                | Inr qn \<Rightarrow>
                    (case build_reverse_cache d of
                       Inl e \<Rightarrow> (Inl e, w)
                     | Inr step_to_seq \<Rightarrow> (Inr (ShowStep qn (step_to_seq qn)), w)))))"

text \<open>
  \<^verbatim>\<open>op_gc\<close>: the loop over a copy of the keys deletes every key whose list is empty.
\<close>

fun gc_keys :: "string list \<Rightarrow> dict \<Rightarrow> error + dict" where
  "gc_keys [] m = Inr m"
| "gc_keys (k # ks) m =
     (case map_of m k of
        None \<Rightarrow> Inl KeyError
      | Some steps \<Rightarrow> gc_keys ks (if steps = [] then AList.delete k m else m))"

definition op_gc :: "string \<Rightarrow> world \<Rightarrow> (error + report) \<times> world" where
  "op_gc db_path w =
     (case load_db db_path w of
        Inl e \<Rightarrow> (Inl e, w)
      | Inr d \<Rightarrow>
          (let before = length (dbmap d) in
           case gc_keys (map fst (dbmap d)) (dbmap d) of
             Inl e \<Rightarrow> (Inl e, w)
           | Inr m \<Rightarrow>
               (let after = length m in
                if before \<noteq> after
                then save_report db_path (d\<lparr>dbmap := m\<rparr>) (GcRemoved (before - after)) w
                else (Inr (GcRemoved (before - after)), w))))"

section \<open>Lint\<close>

text \<open>
  \<^verbatim>\<open>op_lint\<close> prints a line for each issue and clears the flag \<^verbatim>\<open>ok\<close> at each error.
  The state of its loops is the list of lines printed so far, the flag, and for the first
  loop the dictionary \<^verbatim>\<open>seen\<close>.
\<close>

datatype issue =
    ErrStep string error
  | ErrDuplicate string string string
  | ErrSequence string error
  | WarnEmpty string

fun lint_steps ::
  "string \<Rightarrow> string list \<Rightarrow> issue list \<times> bool \<times> (string \<rightharpoonup> string)
     \<Rightarrow> issue list \<times> bool \<times> (string \<rightharpoonup> string)" where
  "lint_steps seq [] st = st"
| "lint_steps seq (s # steps) (out, ok, seen) =
     (let (out1, ok1) = (case normalize_step_name s of
                           Inl e \<Rightarrow> (out @ [ErrStep s e], False)
                         | Inr n \<Rightarrow> (out, ok));
          (out2, ok2) = (case seen s of
                           None \<Rightarrow> (out1, ok1)
                         | Some q \<Rightarrow> if q \<noteq> seq then (out1 @ [ErrDuplicate s q seq], False)
                                     else (out1, ok1))
      in lint_steps seq steps (out2, ok2, seen(s \<mapsto> seq)))"

fun lint_items ::
  "dict \<Rightarrow> issue list \<times> bool \<times> (string \<rightharpoonup> string) \<Rightarrow> issue list \<times> bool \<times> (string \<rightharpoonup> string)" where
  "lint_items [] st = st"
| "lint_items ((seq, steps) # items) st = lint_items items (lint_steps seq steps st)"

fun lint_keys :: "string list \<Rightarrow> issue list \<times> bool \<Rightarrow> issue list \<times> bool" where
  "lint_keys [] st = st"
| "lint_keys (seq # keys) (out, ok) =
     lint_keys keys (case canonicalize_sequence seq of
                       Inl e \<Rightarrow> (out @ [ErrSequence seq e], False)
                     | Inr key \<Rightarrow> (out, ok))"

fun lint_empty :: "dict \<Rightarrow> issue list \<Rightarrow> issue list" where
  "lint_empty [] out = out"
| "lint_empty ((seq, steps) # items) out =
     lint_empty items (if steps = [] then out @ [WarnEmpty seq] else out)"

text \<open>The lines printed and the exit status: 1 from \<^verbatim>\<open>sys.exit(1)\<close>, otherwise 0.\<close>

definition lint_db :: "db \<Rightarrow> issue list \<times> nat" where
  "lint_db d =
     (case lint_items (dbmap d) ([], True, Map.empty) of
        (out1, ok1, seen) \<Rightarrow>
          (case lint_keys (map fst (dbmap d)) (out1, ok1) of
             (out2, ok2) \<Rightarrow>
               (lint_empty (dbmap d) out2, if ok2 then 0 else 1)))"

definition op_lint :: "string \<Rightarrow> world \<Rightarrow> (error + issue list \<times> nat) \<times> world" where
  "op_lint db_path w =
     (case load_db db_path w of
        Inl e \<Rightarrow> (Inl e, w)
      | Inr d \<Rightarrow> (Inr (lint_db d), w))"

section \<open>Auxiliary notions for the proofs\<close>

text \<open>
  A partly built reverse cache agrees with the items still to be read when it maps no
  step of theirs to another key.
\<close>

definition agrees :: "(string \<rightharpoonup> string) \<Rightarrow> dict \<Rightarrow> bool" where
  "agrees c items \<longleftrightarrow> (\<forall>s k. k \<in> set (owners items s) \<longrightarrow> c s = None \<or> c s = Some k)"

text \<open>The list of steps under a key, empty for a key that is not there.\<close>

definition steps_of :: "dict \<Rightarrow> string \<Rightarrow> string list" where
  "steps_of m k = (case map_of m k of None \<Rightarrow> [] | Some l \<Rightarrow> l)"

text \<open>The answers \<^verbatim>\<open>confirm\<close> takes for a yes.\<close>

definition is_yes :: "string \<Rightarrow> bool" where
  "is_yes line \<longleftrightarrow> lower (strip line) = ''y'' \<or> lower (strip line) = ''yes''"

text \<open>
  The lines the loops of \<^verbatim>\<open>op_lint\<close> add to the output, as functions of the part of the
  document they read; \<open>is_error\<close> tells the lines marked \<^verbatim>\<open>[ERR]\<close> from the warnings.
\<close>

fun is_error :: "issue \<Rightarrow> bool" where
  "is_error (WarnEmpty seq) = False"
| "is_error i = True"

fun step_issues :: "string \<Rightarrow> string list \<Rightarrow> (string \<rightharpoonup> string) \<Rightarrow> issue list" where
  "step_issues seq [] seen = []"
| "step_issues seq (s # steps) seen =
     (case normalize_step_name s of Inl e \<Rightarrow> [ErrStep s e] | Inr n \<Rightarrow> [])
     @ (case seen s of
          None \<Rightarrow> []
        | Some q \<Rightarrow> if q \<noteq> seq then [ErrDuplicate s q seq] else [])
     @ step_issues seq steps (seen(s \<mapsto> seq))"

fun item_issues :: "dict \<Rightarrow> (string \<rightharpoonup> string) \<Rightarrow> issue list" where
  "item_issues [] seen = []"
| "item_issues ((seq, steps) # items) seen =
     step_issues seq steps seen
     @ item_issues items (\<lambda>s. if s \<in> set steps then Some seq else seen s)"

fun key_issues :: "string list \<Rightarrow> issue list" where
  "key_issues [] = []"
| "key_issues (seq # keys) =
     (case canonicalize_sequence seq of Inl e \<Rightarrow> [ErrSequence seq e] | Inr key \<Rightarrow> [])
     @ key_issues keys"

fun empty_issues :: "dict \<Rightarrow> issue list" where
  "empty_issues [] = []"
| "empty_issues ((seq, steps) # items) =
     (if steps = [] then [WarnEmpty seq] else []) @ empty_issues items"

text \<open>
  A map as the data model has it: the keys are distinct, no step is under two different
  keys, and no key is the empty string.
\<close>

definition good_map :: "dict \<Rightarrow> bool" where
  "good_map m \<longleftrightarrow> distinct (map fst m) \<and> one_owner m \<and> [] \<notin> set (map fst m)"

text \<open>Two worlds with the same files, fault and temporary name.\<close>

definition same_store :: "world \<Rightarrow> world \<Rightarrow> bool" where
  "same_store w w' \<longleftrightarrow> files w' = files w \<and> fault w' = fault w \<and> tmp_name w' = tmp_name w"

text \<open>
  An operation keeps the data model at the path when its normal return leaves there a
  document with a good map.
\<close>

definition kept :: "string \<Rightarrow> (error + report) \<times> world \<Rightarrow> bool" where
  "kept p res =
     (case res of
        (Inl e, w') \<Rightarrow> True
      | (Inr r, w') \<Rightarrow> (case load_db p w' of Inl e \<Rightarrow> False | Inr d' \<Rightarrow> good_map (dbmap d')))"

section \<open>Example worlds\<close>


text \<open>
  A world with the step \<open>open menu\<close> under \<open>DOWN,DOWN\<close>, in which the next save fails
  after 10 characters of the new text have reached the temporary file.
\<close>

definition failing_world :: world where
  "failing_world =
     \<lparr>files = [''sequences.json'' \<mapsto>
                Whole \<lparr>version = 1, dbmap = [(''DOWN,DOWN'', [''open menu''])]\<rparr>],
      stdin = [], fault = FailWrite 10, tmp_name = ''.sequences.tmp''\<rparr>"


text \<open>A world whose document has the empty string as a sequence key.\<close>

definition empty_key_world :: world where
  "empty_key_world =
     \<lparr>files = [''sequences.json'' \<mapsto> Whole \<lparr>version = 1, dbmap = [('''', [''open menu''])]\<rparr>],
      stdin = [''open menu'', ''down''], fault = NoFault, tmp_name = ''.sequences.tmp''\<rparr>"

text \<open>The same document, with the answers \<open>y\<close> and \<open>n\<close> waiting on the standard input.\<close>

definition asking_world :: world where
  "asking_world =
     \<lparr>files = [''sequences.json'' \<mapsto>
                Whole \<lparr>version = 1, dbmap = [(''DOWN,DOWN'', [''open the menu''])]\<rparr>],
      stdin = [''y'', ''n''], fault = NoFault, tmp_name = ''.sequences.tmp''\<rparr>"

text \<open>
  A document whose key and step are accepted by the two normalizers but are not in
  canonical form: the key is in lower case with a space, the step has two spaces.
\<close>

definition sloppy_world :: world where
  "sloppy_world =
     \<lparr>files = [''sequences.json'' \<mapsto>
                Whole \<lparr>version = 1, dbmap = [(''down down'', [''open  menu''])]\<rparr>],
      stdin = [], fault = NoFault, tmp_name = ''.sequences.tmp''\<rparr>"

text \<open>
  A world whose document has a step in upper case, a step under two sequences, a key
  with an unknown token and an empty sequence.
\<close>

definition messy_world :: world where
  "messy_world =
     \<lparr>files = [''sequences.json'' \<mapsto>
                Whole \<lparr>version = 1,
                       dbmap = [(''UP'', [''Open'', ''close menu'']), (''FOO'', [''close menu'']),
                                (''DOWN'', [])]\<rparr>],
      stdin = [], fault = NoFault, tmp_name = ''.sequences.tmp''\<rparr>"

text \<open>
  A world in which \<open>open menu\<close> is under \<open>UP\<close> and the answers on the standard input
  ask to add it under \<open>DOWN\<close>, with \<open>close menu\<close> as the replacement name.
\<close>

definition adding_world :: world where
  "adding_world =
     \<lparr>files = [''sequences.json'' \<mapsto> Whole \<lparr>version = 1, dbmap = [(''UP'', [''open menu''])]\<rparr>],
      stdin = [''open menu'', ''down'', ''close menu''], fault = NoFault,
      tmp_name = ''.sequences.tmp''\<rparr>"



section \<open>Properties of the canonicalizer\<close>

lemma isupper_forbidden: "isupper ch \<Longrightarrow> \<not> (islower ch \<or> isdigit ch \<or> isspace ch)"
  by (auto simp: isupper_def islower_def isdigit_def isspace_def ascii_uppercase_def
      ascii_lowercase_def digits_def whitespace_def)

lemma has_upper_has_forbidden:
  "list_ex isupper raw \<Longrightarrow> list_ex (\<lambda>ch. \<not> (islower ch \<or> isdigit ch \<or> isspace ch)) raw"
  unfolding list_ex_iff using isupper_forbidden by blast

text \<open>
  The test \<^verbatim>\<open>has_forbidden\<close> counts an uppercase letter as forbidden, so the branch
  \<^verbatim>\<open>if has_upper:\<close> is never reached: no input gets the message
  "Use lowercase only (letters/digits + single spaces)."
\<close>

lemma normalize_step_name_never_LowercaseOnly: "normalize_step_name raw \<noteq> Inl LowercaseOnly"
  using has_upper_has_forbidden [of raw]
  by (simp add: normalize_step_name_def Let_def)

text \<open>
  Claim C4: an input that breaks only the uppercase rule (it has an uppercase letter, and
  each of its characters is a letter, a digit or whitespace) should fail with the message
  for uppercase alone. The input \<open>''Open menu''\<close> is such an input, and
  \<^verbatim>\<open>normalize_step_name\<close> fails on it with the combined message for uppercase and
  punctuation.
\<close>

theorem uppercase_only_input_gets_combined_message:
  "list_ex isupper ''Open menu''
   \<and> list_all (\<lambda>ch. isupper ch \<or> islower ch \<or> isdigit ch \<or> isspace ch) ''Open menu''
   \<and> normalize_step_name ''Open menu'' = Inl LowercaseOnlyAndRemovePunctuation"
  by code_simp

lemma re_split_from_token:
  "list_all (\<lambda>ch. \<not> is_sep ch) t \<Longrightarrow> t \<noteq> [] \<Longrightarrow>
   re_split_from b cur (t @ rest) = re_split_from False (cur @ t) rest"
proof (induction t arbitrary: b cur)
  case Nil
  then show ?case by simp
next
  case (Cons ch t)
  show ?case
  proof (cases "t = []")
    case True
    with Cons.prems show ?thesis by simp
  next
    case False
    with Cons.prems Cons.IH [of False "cur @ [ch]"] show ?thesis by simp
  qed
qed

lemma re_split_from_run_inside:
  "list_all is_sep s \<Longrightarrow> re_split_from True [] (s @ rest) = re_split_from True [] rest"
  by (induction s) simp_all

lemma re_split_from_run_start:
  "list_all is_sep s \<Longrightarrow> s \<noteq> [] \<Longrightarrow>
   re_split_from False cur (s @ rest) = cur # re_split_from True [] rest"
  by (cases s) (simp_all add: re_split_from_run_inside)

lemma strip_no_space: "list_all (\<lambda>ch. \<not> isspace ch) t \<Longrightarrow> strip t = t"
proof -
  assume a: "list_all (\<lambda>ch. \<not> isspace ch) t"
  then have "dropWhile isspace t = t"
    by (cases t) simp_all
  moreover from a have "dropWhile isspace (rev t) = rev t"
    by (cases "rev t") (auto simp: list_all_iff dest: arg_cong [where f = set])
  ultimately show ?thesis by (simp add: strip_def)
qed

lemma token_like_strip: "token_like t \<Longrightarrow> strip t = t"
  by (rule strip_no_space) (auto simp: token_like_def is_sep_def list_all_iff)

lemma raw_tokens_Cons_token: "token_like t \<Longrightarrow> raw_tokens (t # ps) = t # raw_tokens ps"
  by (simp add: raw_tokens_def token_like_strip) (simp add: token_like_def)

lemma strip_Nil: "strip [] = []"
  by (simp add: strip_def)

lemma re_split_from_pairs:
  "well_separated pairs \<Longrightarrow>
   raw_tokens (re_split_from b [] (concat (map (\<lambda>(t, s). t @ s) pairs))) = map fst pairs"
proof (induction pairs arbitrary: b rule: well_separated.induct)
  case 1
  then show ?case by (simp add: raw_tokens_def strip_Nil)
next
  case (2 t s)
  then have t: "token_like t" and s: "sep_run s" by simp_all
  from t have tl: "list_all (\<lambda>ch. \<not> is_sep ch) t" "t \<noteq> []" by (simp_all add: token_like_def)
  show ?case
  proof (cases "s = []")
    case True
    with tl re_split_from_token [of t b "[]" "[]"] t show ?thesis
      by (simp add: raw_tokens_Cons_token) (simp add: raw_tokens_def)
  next
    case False
    with s have "re_split_from False t (s @ []) = t # re_split_from True [] []"
      by (intro re_split_from_run_start) (simp_all add: sep_run_def)
    with tl re_split_from_token [of t b "[]" "s"] t show ?thesis
      by (simp add: raw_tokens_Cons_token) (simp add: raw_tokens_def strip_Nil)
  qed
next
  case (3 t s p ps)
  then have t: "token_like t" and s: "sep_run s" "s \<noteq> []" and w: "well_separated (p # ps)"
    by simp_all
  from t have tl: "list_all (\<lambda>ch. \<not> is_sep ch) t" "t \<noteq> []" by (simp_all add: token_like_def)
  let ?rest = "concat (map (\<lambda>(t, s). t @ s) (p # ps))"
  have "re_split_from b [] (t @ s @ ?rest) = re_split_from False t (s @ ?rest)"
    using re_split_from_token [OF tl, of b "[]" "s @ ?rest"] by simp
  also have "\<dots> = t # re_split_from True [] ?rest"
    using s by (intro re_split_from_run_start) (simp_all add: sep_run_def)
  finally show ?case
    using t "3.IH" [OF w, of True] by (simp add: raw_tokens_Cons_token)
qed

lemma raw_tokens_spell:
  assumes "sep_run lead" and "well_separated pairs"
  shows "raw_tokens (re_split (spell lead pairs)) = map fst pairs"
proof (cases "lead = []")
  case True
  with assms(2) show ?thesis
    by (simp add: re_split_def spell_def re_split_from_pairs)
next
  case False
  with assms(1) have "re_split (spell lead pairs)
      = [] # re_split_from True [] (concat (map (\<lambda>(t, s). t @ s) pairs))"
    unfolding re_split_def spell_def
    by (intro re_split_from_run_start) (simp_all add: sep_run_def)
  with assms(2) show ?thesis
    using re_split_from_pairs [of pairs True] by (simp add: raw_tokens_def strip_Nil)
qed

lemma canonicalize_sequence_raw_tokens:
  "raw_tokens (re_split a) = raw_tokens (re_split b) \<Longrightarrow>
   canonicalize_sequence a = canonicalize_sequence b"
  by (simp add: canonicalize_sequence_def raw_tokens_def)

text \<open>
  Claim C6: two raw sequences with the same tokens in the same order, which differ only
  in the commas and whitespace around the tokens, have the same result of
  \<^verbatim>\<open>canonicalize_sequence\<close>. The two inputs spell the tokens \<open>ts\<close> with the separator
  runs \<open>seps\<close> and \<open>seps'\<close> after them and the runs \<open>lead\<close> and \<open>lead'\<close> in front.
\<close>

theorem canonicalize_sequence_separator_style:
  assumes "sep_run lead" and "sep_run lead'"
    and "length seps = length ts" and "length seps' = length ts"
    and "well_separated (zip ts seps)" and "well_separated (zip ts seps')"
  shows "canonicalize_sequence (spell lead (zip ts seps))
       = canonicalize_sequence (spell lead' (zip ts seps'))"
proof -
  have "raw_tokens (re_split (spell lead (zip ts seps))) = ts"
    using assms(1,3,5) by (simp add: raw_tokens_spell)
  moreover have "raw_tokens (re_split (spell lead' (zip ts seps'))) = ts"
    using assms(2,4,6) by (simp add: raw_tokens_spell)
  ultimately show ?thesis
    by (intro canonicalize_sequence_raw_tokens) simp
qed

theorem canonicalize_sequence_separator_style_witness:
  "sep_run [] \<and> sep_run '' '' \<and> well_separated (zip [''down'', ''down''] ['', '', []])
   \<and> well_separated (zip [''down'', ''down''] ['' '', '',''])
   \<and> spell [] (zip [''down'', ''down''] ['', '', []]) = ''down, down''
   \<and> spell '' '' (zip [''down'', ''down''] ['' '', '','']) = '' down down,''
   \<and> canonicalize_sequence ''down, down'' = canonicalize_sequence '' down down,''
   \<and> canonicalize_sequence ''down, down'' = Inr ''DOWN,DOWN''"
proof -
  have h: "sep_run []" "sep_run '' ''" "length ['', '', []] = length [''down'', ''down'']"
    "length ['' '', '',''] = length [''down'', ''down'']"
    "well_separated (zip [''down'', ''down''] ['', '', []])"
    "well_separated (zip [''down'', ''down''] ['' '', '',''])"
    by code_simp+
  have s: "spell [] (zip [''down'', ''down''] ['', '', []]) = ''down, down''"
    "spell '' '' (zip [''down'', ''down''] ['' '', '','']) = '' down down,''"
    by (simp_all add: spell_def)
  have c: "canonicalize_sequence ''down, down'' = Inr ''DOWN,DOWN''" by code_simp
  from canonicalize_sequence_separator_style [OF h(1,2,3,4,5,6)] s c h show ?thesis
    by simp
qed

section \<open>The reverse cache\<close>

lemma in_owners: "k \<in> set (owners m s) \<longleftrightarrow> (\<exists>steps. (k, steps) \<in> set m \<and> s \<in> set steps)"
  by (force simp: owners_def)

lemma owners_Nil [simp]: "owners [] s = []"
  by (simp add: owners_def)

lemma owners_Cons:
  "owners ((k, steps) # m) s = (if s \<in> set steps then k # owners m s else owners m s)"
  by (simp add: owners_def)

lemma owners_nonempty_all_steps: "k \<in> set (owners m s) \<Longrightarrow> s \<in> set (all_steps m)"
  by (force simp: in_owners all_steps_def)

lemma one_owner_iff:
  "one_owner m \<longleftrightarrow> (\<forall>s k1 k2. k1 \<in> set (owners m s) \<longrightarrow> k2 \<in> set (owners m s) \<longrightarrow> k1 = k2)"
  unfolding one_owner_def list_all_iff
  using owners_nonempty_all_steps by blast

lemma cache_steps_Inr:
  "cache_steps seq steps c = Inr c' \<longleftrightarrow>
     (\<forall>s\<in>set steps. c s = None \<or> c s = Some seq)
     \<and> c' = (\<lambda>s. if s \<in> set steps then Some seq else c s)"
proof (induction steps arbitrary: c)
  case Nil
  then show ?case by auto
next
  case (Cons s steps)
  show ?case
  proof (cases "c s = None \<or> c s = Some seq")
    case True
    then have unfold: "cache_steps seq (s # steps) c = cache_steps seq steps (c(s \<mapsto> seq))"
      by auto
    have f: "(\<lambda>x. if x \<in> set steps then Some seq else (c(s \<mapsto> seq)) x)
        = (\<lambda>x. if x \<in> set (s # steps) then Some seq else c x)"
      by (auto simp: fun_eq_iff)
    have g: "(\<forall>x\<in>set steps. (c(s \<mapsto> seq)) x = None \<or> (c(s \<mapsto> seq)) x = Some seq)
        \<longleftrightarrow> (\<forall>x\<in>set (s # steps). c x = None \<or> c x = Some seq)"
      using True by auto
    show ?thesis
      unfolding unfold Cons.IH f g ..
  next
    case False
    then show ?thesis by (auto split: option.splits)
  qed
qed

lemma cache_steps_total:
  "(\<exists>c'. cache_steps seq steps c = Inr c') \<or> (\<exists>s q. cache_steps seq steps c = Inl (InconsistentJSON s q seq))"
  by (induction steps arbitrary: c) (auto split: option.splits)

lemma cache_steps_Inl:
  "cache_steps seq steps c = Inl e \<Longrightarrow> \<exists>s q. e = InconsistentJSON s q seq"
  by (induction steps arbitrary: c) (auto split: option.splits if_splits)

lemma cache_items_Inl:
  "cache_items items c = Inl e \<Longrightarrow> \<exists>s q k. e = InconsistentJSON s q k"
proof (induction items arbitrary: c)
  case Nil
  then show ?case by simp
next
  case (Cons item items)
  obtain k steps where item: "item = (k, steps)" by (cases item)
  from Cons.prems show ?case
    unfolding item using Cons.IH cache_steps_Inl
    by (fastforce split: sum.splits)
qed

lemma cache_items_Inr:
  "cache_items items c = Inr c' \<longleftrightarrow>
     one_owner items \<and> agrees c items
     \<and> c' = (\<lambda>s. case owners items s of [] \<Rightarrow> c s | k # ks \<Rightarrow> Some k)"
proof (induction items arbitrary: c)
  case Nil
  then show ?case by (auto simp: one_owner_iff agrees_def)
next
  case (Cons item items)
  obtain k steps where item: "item = (k, steps)" by (cases item)
  let ?c1 = "\<lambda>s. if s \<in> set steps then Some k else c s"
  have step: "cache_items (item # items) c = Inr c' \<longleftrightarrow>
      (\<forall>s\<in>set steps. c s = None \<or> c s = Some k) \<and> cache_items items ?c1 = Inr c'"
  proof (cases "\<forall>s\<in>set steps. c s = None \<or> c s = Some k")
    case True
    then have "cache_steps k steps c = Inr ?c1"
      using cache_steps_Inr [of k steps c ?c1] by simp
    with True show ?thesis by (simp add: item)
  next
    case False
    then have "cache_steps k steps c \<noteq> Inr c1" for c1
      by (simp add: cache_steps_Inr)
    with False show ?thesis
      by (cases "cache_steps k steps c") (auto simp: item)
  qed
  have cond: "(\<forall>s\<in>set steps. c s = None \<or> c s = Some k) \<and> one_owner items \<and> agrees ?c1 items
      \<longleftrightarrow> one_owner (item # items) \<and> agrees c (item # items)"
    unfolding item one_owner_iff agrees_def owners_Cons
    by (auto split: if_splits) (metis option.inject)+
  have res: "(\<lambda>s. case owners items s of [] \<Rightarrow> ?c1 s | k # ks \<Rightarrow> Some k)
      = (\<lambda>s. case owners (item # items) s of [] \<Rightarrow> c s | k # ks \<Rightarrow> Some k)"
    if oo: "one_owner (item # items)"
  proof (rule ext)
    fix s
    show "(case owners items s of [] \<Rightarrow> ?c1 s | k # ks \<Rightarrow> Some k)
        = (case owners (item # items) s of [] \<Rightarrow> c s | k # ks \<Rightarrow> Some k)"
    proof (cases "s \<in> set steps")
      case True
      have "q = k" if "q \<in> set (owners items s)" for q
      proof -
        from True that have "q \<in> set (owners (item # items) s)" "k \<in> set (owners (item # items) s)"
          by (simp_all add: item owners_Cons)
        with oo show ?thesis unfolding one_owner_iff by blast
      qed
      with True show ?thesis
        by (auto simp: item owners_Cons split: list.splits)
    next
      case False
      then show ?thesis by (simp add: item owners_Cons)
    qed
  qed
  show ?case
    unfolding step Cons.IH using cond res by auto
qed

lemma build_reverse_cache_Inr:
  "build_reverse_cache d = Inr c \<longleftrightarrow>
     one_owner (dbmap d)
     \<and> c = (\<lambda>s. case owners (dbmap d) s of [] \<Rightarrow> None | k # ks \<Rightarrow> Some k)"
  by (simp add: build_reverse_cache_def cache_items_Inr agrees_def)

lemma build_reverse_cache_Inl:
  "build_reverse_cache d = Inl e \<Longrightarrow> \<exists>s q k. e = InconsistentJSON s q k"
  unfolding build_reverse_cache_def by (rule cache_items_Inl)

lemma build_reverse_cache_fails:
  assumes "\<not> one_owner (dbmap d)"
  shows "\<exists>s q k. build_reverse_cache d = Inl (InconsistentJSON s q k)"
proof (cases "build_reverse_cache d")
  case (Inl e)
  with build_reverse_cache_Inl [OF Inl] show ?thesis by auto
next
  case (Inr c)
  with assms show ?thesis by (simp add: build_reverse_cache_Inr)
qed

lemma build_reverse_cache_Some:
  assumes "build_reverse_cache d = Inr c"
  shows "c s = Some k \<longleftrightarrow> k \<in> set (owners (dbmap d) s)"
proof -
  from assms have oo: "one_owner (dbmap d)"
    and c: "c s = (case owners (dbmap d) s of [] \<Rightarrow> None | k # ks \<Rightarrow> Some k)"
    by (simp_all add: build_reverse_cache_Inr)
  show ?thesis
  proof (cases "owners (dbmap d) s")
    case Nil
    with c show ?thesis by simp
  next
    case (Cons q qs)
    then have "q \<in> set (owners (dbmap d) s)" by simp
    with oo have "k \<in> set (owners (dbmap d) s) \<longleftrightarrow> k = q"
      unfolding one_owner_iff by blast
    with c Cons show ?thesis by auto
  qed
qed

lemma build_reverse_cache_None:
  assumes "build_reverse_cache d = Inr c"
  shows "c s = None \<longleftrightarrow> s \<notin> set (all_steps (dbmap d))"
proof -
  have "c s = None \<longleftrightarrow> \<not> (\<exists>k. c s = Some k)"
    by (cases "c s") simp_all
  also have "\<dots> \<longleftrightarrow> (\<forall>k. k \<notin> set (owners (dbmap d) s))"
    by (simp add: build_reverse_cache_Some [OF assms])
  also have "\<dots> \<longleftrightarrow> s \<notin> set (all_steps (dbmap d))"
    by (force simp: in_owners all_steps_def)
  finally show ?thesis .
qed

lemma cache_steps_Inl_exact:
  "cache_steps seq steps c = Inl (InconsistentJSON s q k) \<Longrightarrow>
   k = seq \<and> s \<in> set steps \<and> c s = Some q \<and> q \<noteq> seq"
proof (induction steps arbitrary: c)
  case Nil
  then show ?case by simp
next
  case (Cons x xs)
  show ?case
  proof (cases "c x = None \<or> c x = Some seq")
    case True
    with Cons.prems have "cache_steps seq xs (c(x \<mapsto> seq)) = Inl (InconsistentJSON s q k)"
      by auto
    from Cons.IH [OF this] have r: "k = seq" "s \<in> set xs" "(c(x \<mapsto> seq)) s = Some q" "q \<noteq> seq"
      by simp_all
    from r(3,4) have "s \<noteq> x" by auto
    with r show ?thesis by simp
  next
    case False
    then obtain q' where "c x = Some q'" "q' \<noteq> seq" by (cases "c x") auto
    with Cons.prems show ?thesis by simp
  qed
qed

lemma cache_items_Inl_exact:
  "cache_items items c = Inl (InconsistentJSON s q k) \<Longrightarrow>
   k \<in> set (owners items s) \<and> q \<noteq> k \<and> (c s = Some q \<or> q \<in> set (owners items s))"
proof (induction items arbitrary: c)
  case Nil
  then show ?case by simp
next
  case (Cons item items)
  obtain seq steps where item: "item = (seq, steps)" by (cases item)
  show ?case
  proof (cases "cache_steps seq steps c")
    case (Inl e)
    with Cons.prems have "cache_steps seq steps c = Inl (InconsistentJSON s q k)"
      by (simp add: item)
    from cache_steps_Inl_exact [OF this] show ?thesis
      by (simp add: item owners_Cons)
  next
    case (Inr c')
    then have c': "c' = (\<lambda>x. if x \<in> set steps then Some seq else c x)"
      by (simp add: cache_steps_Inr)
    from Cons.prems Inr have "cache_items items c' = Inl (InconsistentJSON s q k)"
      by (simp add: item)
    from Cons.IH [OF this] have r: "k \<in> set (owners items s)" "q \<noteq> k"
      "c' s = Some q \<or> q \<in> set (owners items s)" by simp_all
    show ?thesis
    proof (cases "s \<in> set steps")
      case True
      with r c' show ?thesis by (auto simp: item owners_Cons)
    next
      case False
      with r c' show ?thesis by (auto simp: item owners_Cons)
    qed
  qed
qed

lemma build_reverse_cache_Inl_exact:
  assumes "build_reverse_cache d = Inl (InconsistentJSON s q k)"
  shows "q \<in> set (owners (dbmap d) s)" and "k \<in> set (owners (dbmap d) s)" and "q \<noteq> k"
  using cache_items_Inl_exact [of "dbmap d" Map.empty s q k] assms
  by (simp_all add: build_reverse_cache_def)

lemma duplicate_in_one_list_passes:
  assumes "(seq, steps) \<in> set (dbmap d)"
    and "1 < count_list steps s"
    and "one_owner (dbmap d)"
  shows "\<exists>cache. build_reverse_cache d = Inr cache \<and> cache s = Some seq"
proof -
  from assms(3) obtain cache where c: "build_reverse_cache d = Inr cache"
    by (simp add: build_reverse_cache_Inr)
  from assms(2) have "s \<in> set steps"
    by (metis count_list_0_iff not_less_zero)
  with assms(1) have "seq \<in> set (owners (dbmap d) s)"
    by (auto simp: in_owners)
  with c show ?thesis
    by (simp add: build_reverse_cache_Some)
qed

text \<open>
  Claim C10, as the code has it: a step that occurs more than once in the list of one
  sequence, and under no other key, never makes \<^verbatim>\<open>build_reverse_cache\<close> fail. When no
  step of the document is under two different keys, the reverse cache is built and maps
  the repeated step to its sequence. Otherwise the function raises the inconsistency
  error for another step, one that is listed under the two different keys the error
  names. The check compares sequence keys only, so a repetition inside one list passes
  it.
\<close>

theorem repeated_step_is_no_conflict:
  assumes "(seq, steps) \<in> set (dbmap d)"
    and "1 < count_list steps s"
    and "list_all (\<lambda>k. k = seq) (owners (dbmap d) s)"
  shows "(one_owner (dbmap d) \<longrightarrow>
            (\<exists>cache. build_reverse_cache d = Inr cache \<and> cache s = Some seq))
       \<and> (\<not> one_owner (dbmap d) \<longrightarrow>
            (\<exists>s' q k. build_reverse_cache d = Inl (InconsistentJSON s' q k)
               \<and> s' \<noteq> s \<and> q \<noteq> k
               \<and> q \<in> set (owners (dbmap d) s') \<and> k \<in> set (owners (dbmap d) s')))"
proof (intro conjI impI)
  assume "one_owner (dbmap d)"
  with assms(1,2) show "\<exists>cache. build_reverse_cache d = Inr cache \<and> cache s = Some seq"
    by (rule duplicate_in_one_list_passes)
next
  assume "\<not> one_owner (dbmap d)"
  from build_reverse_cache_fails [OF this] obtain s' q k
    where b: "build_reverse_cache d = Inl (InconsistentJSON s' q k)" by blast
  note e = build_reverse_cache_Inl_exact [OF b]
  have "s' \<noteq> s"
  proof
    assume "s' = s"
    from assms(3) have all: "\<forall>x \<in> set (owners (dbmap d) s). x = seq"
      by (simp add: list_all_iff)
    from e(1) \<open>s' = s\<close> have "q \<in> set (owners (dbmap d) s)" by simp
    with all have "q = seq" by (rule bspec)
    moreover from e(2) \<open>s' = s\<close> have "k \<in> set (owners (dbmap d) s)" by simp
    with all have "k = seq" by (rule bspec)
    ultimately show False using e(3) by simp
  qed
  with b e show "\<exists>s' q k. build_reverse_cache d = Inl (InconsistentJSON s' q k)
               \<and> s' \<noteq> s \<and> q \<noteq> k
               \<and> q \<in> set (owners (dbmap d) s') \<and> k \<in> set (owners (dbmap d) s')"
    by blast
qed

theorem repeated_step_is_no_conflict_witness:
  "(''UP'', [''open menu'', ''open menu''])
     \<in> set (dbmap \<lparr>version = 1, dbmap = [(''UP'', [''open menu'', ''open menu'']), (''DOWN'', [''close menu''])]\<rparr>)
   \<and> 1 < count_list [''open menu'', ''open menu''] ''open menu''
   \<and> list_all (\<lambda>k. k = ''UP'')
        (owners [(''UP'', [''open menu'', ''open menu'']), (''DOWN'', [''close menu''])] ''open menu'')
   \<and> one_owner (dbmap \<lparr>version = 1, dbmap = [(''UP'', [''open menu'', ''open menu'']), (''DOWN'', [''close menu''])]\<rparr>)
   \<and> (\<exists>cache. build_reverse_cache \<lparr>version = 1, dbmap = [(''UP'', [''open menu'', ''open menu'']), (''DOWN'', [''close menu''])]\<rparr> = Inr cache
          \<and> cache ''open menu'' = Some ''UP'')"
proof -
  let ?d = "\<lparr>version = 1, dbmap = [(''UP'', [''open menu'', ''open menu'']), (''DOWN'', [''close menu''])]\<rparr>"
  have h1: "(''UP'', [''open menu'', ''open menu'']) \<in> set (dbmap ?d)" by simp
  have h2: "1 < count_list [''open menu'', ''open menu''] ''open menu''" by simp
  have h3: "list_all (\<lambda>k. k = ''UP'') (owners (dbmap ?d) ''open menu'')"
    by (simp add: owners_def)
  have h4: "one_owner (dbmap ?d)" by (simp add: one_owner_def all_steps_def owners_def)
  from repeated_step_is_no_conflict [OF h1 h2 h3] h4
  have "\<exists>cache. build_reverse_cache ?d = Inr cache \<and> cache ''open menu'' = Some ''UP''"
    by blast
  with h1 h2 h3 h4 show ?thesis by simp
qed

text \<open>
  The claim itself says that on every such document the reverse cache is built. In the
  document below \<open>open menu\<close> occurs twice under \<open>UP\<close> and under no other key, and
  \<^verbatim>\<open>build_reverse_cache\<close> fails, because \<open>close menu\<close> is under \<open>UP\<close> and \<open>DOWN\<close>.
\<close>

theorem repeated_step_beside_a_conflict:
  "1 < count_list [''open menu'', ''open menu'', ''close menu''] ''open menu''
   \<and> owners [(''UP'', [''open menu'', ''open menu'', ''close menu'']),
              (''DOWN'', [''close menu''])] ''open menu'' = [''UP'']
   \<and> build_reverse_cache
        \<lparr>version = 1,
           dbmap = [(''UP'', [''open menu'', ''open menu'', ''close menu'']),
                    (''DOWN'', [''close menu''])]\<rparr>
       = Inl (InconsistentJSON ''close menu'' ''UP'' ''DOWN'')"
  by (simp add: owners_def build_reverse_cache_def)

section \<open>Which operations check the store\<close>




section \<open>Persistence\<close>

lemma atomic_save_trace_path:
  assumes "tmp_name w \<noteq> path" and "fs \<in> set (atomic_save_trace path d w)"
  shows "fs path = files w path \<or> fs path = Some (Whole d)"
  using assms
  by (cases "fault w")
     (auto simp: atomic_save_trace_def Let_def os_replace_def remove_if_exists_def)

lemma atomic_save_trace_before_replace:
  assumes "tmp_name w \<noteq> path" and "fs \<in> set (take 2 (atomic_save_trace path d w))"
  shows "fs path = files w path"
  using assms
  by (cases "fault w")
     (auto simp: atomic_save_trace_def Let_def os_replace_def remove_if_exists_def
        numeral_2_eq_2)

lemma atomic_save_fault:
  assumes "tmp_name w \<noteq> path" and "fault w \<noteq> NoFault"
  shows "fst (atomic_save path d w) = Inl OSError"
    and "files (snd (atomic_save path d w)) path = files w path"
  using assms
  by (cases "fault w";
      simp add: atomic_save_def atomic_save_trace_def Let_def os_replace_def
        remove_if_exists_def)+

lemma atomic_save_ok:
  assumes "tmp_name w \<noteq> path" and "fault w = NoFault"
  shows "fst (atomic_save path d w) = Inr ()"
    and "files (snd (atomic_save path d w)) path = Some (Whole d)"
  using assms
  by (simp_all add: atomic_save_def atomic_save_trace_def Let_def os_replace_def
        remove_if_exists_def)

text \<open>
  Claim C3: when \<^verbatim>\<open>atomic_save\<close> fails (making the temporary file, writing it, or the
  replace itself), it raises and the path still holds what it held before. Every state
  of the file system that comes before the replace has the old content at the path, and
  every state at all has either the old content or the whole new document there, never a
  torn one. The temporary file has a name other than the path.
\<close>

theorem atomic_save_leaves_previous_document:
  assumes "tmp_name w \<noteq> path"
  shows "(fault w \<noteq> NoFault \<longrightarrow>
            fst (atomic_save path d w) = Inl OSError
            \<and> files (snd (atomic_save path d w)) path = files w path)
       \<and> (\<forall>fs \<in> set (take 2 (atomic_save_trace path d w)). fs path = files w path)
       \<and> (\<forall>fs \<in> set (atomic_save_trace path d w).
            fs path = files w path \<or> fs path = Some (Whole d))
       \<and> (fault w = NoFault \<longrightarrow>
            fst (atomic_save path d w) = Inr ()
            \<and> files (snd (atomic_save path d w)) path = Some (Whole d))"
  using atomic_save_fault [OF assms] atomic_save_ok [OF assms]
    atomic_save_trace_path [OF assms] atomic_save_trace_before_replace [OF assms]
  by blast

theorem atomic_save_leaves_previous_document_witness:
  "tmp_name failing_world \<noteq> ''sequences.json''
   \<and> fault failing_world \<noteq> NoFault
   \<and> fst (atomic_save ''sequences.json'' \<lparr>version = 1, dbmap = []\<rparr> failing_world) = Inl OSError
   \<and> files (snd (atomic_save ''sequences.json'' \<lparr>version = 1, dbmap = []\<rparr> failing_world))
        ''sequences.json''
       = Some (Whole \<lparr>version = 1, dbmap = [(''DOWN,DOWN'', [''open menu''])]\<rparr>)
   \<and> length (atomic_save_trace ''sequences.json'' \<lparr>version = 1, dbmap = []\<rparr> failing_world) = 3
   \<and> list_all (\<lambda>fs. fs ''sequences.json''
           = Some (Whole \<lparr>version = 1, dbmap = [(''DOWN,DOWN'', [''open menu''])]\<rparr>))
        (take 2 (atomic_save_trace ''sequences.json'' \<lparr>version = 1, dbmap = []\<rparr> failing_world))"
proof -
  let ?d = "\<lparr>version = 1, dbmap = []\<rparr>"
  let ?old = "Some (Whole \<lparr>version = 1, dbmap = [(''DOWN,DOWN'', [''open menu''])]\<rparr>)"
  have h: "tmp_name failing_world \<noteq> ''sequences.json''"
    by (simp add: failing_world_def)
  have f: "fault failing_world \<noteq> NoFault"
    by (simp add: failing_world_def)
  have old: "files failing_world ''sequences.json'' = ?old"
    by (simp add: failing_world_def)
  have len: "length (atomic_save_trace ''sequences.json'' ?d failing_world) = 3"
    by (simp add: atomic_save_trace_def failing_world_def Let_def)
  note main = atomic_save_leaves_previous_document [OF h, of ?d]
  from main f have a: "fst (atomic_save ''sequences.json'' ?d failing_world) = Inl OSError"
    and b: "files (snd (atomic_save ''sequences.json'' ?d failing_world)) ''sequences.json'' = ?old"
    unfolding old by blast+
  from main have c: "list_all (\<lambda>fs. fs ''sequences.json'' = ?old)
      (take 2 (atomic_save_trace ''sequences.json'' ?d failing_world))"
    unfolding old list_all_iff by blast
  from h f a b len c show ?thesis by (intro conjI)
qed

section \<open>Dictionaries and the steps they list\<close>

lemma update_snoc_absent:
  "map_of m k = None \<Longrightarrow> AList.update k v (m @ [(k, v0)]) = AList.update k v m"
  by (induction m) (auto split: if_splits)

lemma map_of_snoc_absent: "map_of m k = None \<Longrightarrow> map_of (m @ [(k, v0)]) k = Some v0"
  by (induction m) (auto split: if_splits)

lemma steps_of_Some: "map_of m k = Some l \<Longrightarrow> steps_of m k = l"
  by (simp add: steps_of_def)

lemma steps_of_None: "map_of m k = None \<Longrightarrow> steps_of m k = []"
  by (simp add: steps_of_def)

lemma in_steps_of: "s \<in> set (steps_of m k) \<longleftrightarrow> (\<exists>l. map_of m k = Some l \<and> s \<in> set l)"
  by (cases "map_of m k") (simp_all add: steps_of_def)

lemma setdefault_append_eq:
  "setdefault_append m seq step =
     (if step \<in> set (steps_of m seq) then m
      else AList.update seq (sort (steps_of m seq @ [step])) m)"
proof (cases "map_of m seq")
  case None
  then have m1: "map_of (m @ [(seq, [])]) seq = Some []"
    by (rule map_of_snoc_absent)
  have "setdefault_append m seq step = AList.update seq (sort ([] @ [step])) (m @ [(seq, [])])"
    unfolding setdefault_append_def None option.case Let_def m1 by simp
  also have "\<dots> = AList.update seq (sort ([] @ [step])) m"
    using None by (rule update_snoc_absent)
  finally show ?thesis
    using None by (simp add: steps_of_None)
next
  case (Some l)
  then show ?thesis
    by (simp add: setdefault_append_def Let_def steps_of_Some)
qed

lemma save_report_ok:
  assumes "fault w = NoFault" and "tmp_name w \<noteq> p"
  shows "save_report p d r w
       = (Inr r, w\<lparr>files := (files w)(p \<mapsto> Whole d, tmp_name w := None)\<rparr>)"
  using assms
  by (simp add: save_report_def atomic_save_def atomic_save_trace_def Let_def os_replace_def
      remove_if_exists_def)

lemma distinct_map_of_mem:
  "distinct (map fst m) \<Longrightarrow> (k, v) \<in> set m \<longleftrightarrow> map_of m k = Some v"
  by (metis map_of_SomeD map_of_is_SomeI)

lemma in_owners_steps_of:
  assumes "distinct (map fst m)"
  shows "k \<in> set (owners m s) \<longleftrightarrow> s \<in> set (steps_of m k)"
proof
  assume "k \<in> set (owners m s)"
  then obtain steps where "(k, steps) \<in> set m" "s \<in> set steps"
    unfolding in_owners by blast
  with assms have "map_of m k = Some steps" by simp
  with \<open>s \<in> set steps\<close> show "s \<in> set (steps_of m k)"
    by (simp add: steps_of_Some)
next
  assume "s \<in> set (steps_of m k)"
  then obtain l where "map_of m k = Some l" "s \<in> set l"
    unfolding in_steps_of by blast
  then have "(k, l) \<in> set m" by (simp add: map_of_SomeD)
  with \<open>s \<in> set l\<close> show "k \<in> set (owners m s)"
    unfolding in_owners by blast
qed

lemma one_owner_steps_of:
  assumes "distinct (map fst m)"
  shows "one_owner m \<longleftrightarrow>
    (\<forall>s k1 k2. s \<in> set (steps_of m k1) \<longrightarrow> s \<in> set (steps_of m k2) \<longrightarrow> k1 = k2)"
  unfolding one_owner_iff in_owners_steps_of [OF assms] by blast

lemma steps_of_update:
  "steps_of (AList.update k v m) k' = (if k' = k then v else steps_of m k')"
  by (simp add: steps_of_def update_conv')

lemma steps_of_delete:
  "steps_of (AList.delete k m) k' = (if k' = k then [] else steps_of m k')"
  by (simp add: steps_of_def delete_conv')

lemma all_steps_steps_of:
  "s \<in> set (all_steps m) \<longleftrightarrow> (\<exists>k. k \<in> set (owners m s))"
  by (force simp: in_owners all_steps_def)

section \<open>Reassigning a step\<close>





section \<open>Removing a step\<close>

lemma confirm_Cons:
  "stdin w = line # rest \<Longrightarrow> confirm True w = (Inr (is_yes line), w\<lparr>stdin := rest\<rparr>)"
  by (auto simp: confirm_def input_def is_yes_def Let_def)

lemma owner_steps_of:
  assumes "distinct (map fst (dbmap d))" and "build_reverse_cache d = Inr cache"
    and "cache s = Some A"
  shows "\<exists>la. map_of (dbmap d) A = Some la \<and> s \<in> set la \<and> steps_of (dbmap d) A = la"
proof -
  from assms(2,3) have "A \<in> set (owners (dbmap d) s)"
    by (simp add: build_reverse_cache_Some)
  then have "s \<in> set (steps_of (dbmap d) A)"
    by (simp add: in_owners_steps_of [OF assms(1)])
  then show ?thesis
    unfolding in_steps_of by (auto simp: steps_of_Some)
qed

lemma remove_assume_yes:
  assumes load: "load_db p w = Inr d"
    and dist: "distinct (map fst (dbmap d))"
    and build: "build_reverse_cache d = Inr cache"
    and norm: "normalize_step_name step = Inr s"
    and owner: "cache s = Some A" and key: "A \<noteq> []"
    and store: "fault w = NoFault" "tmp_name w \<noteq> p"
  shows "op_remove p step True w
       = (Inr (Removed s),
          w\<lparr>files := (files w)
               (p \<mapsto> Whole (d\<lparr>dbmap :=
                    (if filter (\<lambda>x. x \<noteq> s) (steps_of (dbmap d) A) = []
                     then AList.delete A (dbmap d)
                     else AList.update A (filter (\<lambda>x. x \<noteq> s) (steps_of (dbmap d) A)) (dbmap d))\<rparr>),
                tmp_name w := None)\<rparr>)"
proof -
  from owner_steps_of [OF dist build owner] obtain la
    where la: "map_of (dbmap d) A = Some la" "steps_of (dbmap d) A = la" by blast
  show ?thesis
    unfolding op_remove_def remove_step_def
    using load build norm owner key la
    by (simp add: truthy_def Let_def save_report_ok [OF store] delete_update_same)
qed

lemma remove_confirmed_nonempty:
  assumes load: "load_db p w = Inr d"
    and dist: "distinct (map fst (dbmap d))"
    and build: "build_reverse_cache d = Inr cache"
    and norm: "normalize_step_name step = Inr s"
    and owner: "cache s = Some A" and key: "A \<noteq> []"
    and store: "fault w = NoFault" "tmp_name w \<noteq> p"
    and ans: "stdin w = line # ins" "is_yes line"
    and rest: "filter (\<lambda>x. x \<noteq> s) (steps_of (dbmap d) A) \<noteq> []"
  shows "op_remove p step False w
       = (Inr (Removed s),
          w\<lparr>stdin := ins,
            files := (files w)
               (p \<mapsto> Whole (d\<lparr>dbmap :=
                     AList.update A (filter (\<lambda>x. x \<noteq> s) (steps_of (dbmap d) A)) (dbmap d)\<rparr>),
                tmp_name w := None)\<rparr>)"
proof -
  from owner_steps_of [OF dist build owner] obtain la
    where la: "map_of (dbmap d) A = Some la" "steps_of (dbmap d) A = la" by blast
  have store': "fault (w\<lparr>stdin := ins\<rparr>) = NoFault" "tmp_name (w\<lparr>stdin := ins\<rparr>) \<noteq> p"
    using store by simp_all
  show ?thesis
    unfolding op_remove_def remove_step_def
    using load build norm owner key la ans rest
    by (simp add: truthy_def Let_def confirm_Cons save_report_ok [OF store'])
qed

lemma remove_confirmed_empty:
  assumes load: "load_db p w = Inr d"
    and dist: "distinct (map fst (dbmap d))"
    and build: "build_reverse_cache d = Inr cache"
    and norm: "normalize_step_name step = Inr s"
    and owner: "cache s = Some A" and key: "A \<noteq> []"
    and store: "fault w = NoFault" "tmp_name w \<noteq> p"
    and ans: "stdin w = line # line2 # ins" "is_yes line"
    and rest: "filter (\<lambda>x. x \<noteq> s) (steps_of (dbmap d) A) = []"
  shows "op_remove p step False w
       = (Inr (Removed s),
          w\<lparr>stdin := ins,
            files := (files w)
               (p \<mapsto> Whole (d\<lparr>dbmap :=
                     (if is_yes line2 then AList.delete A (dbmap d)
                      else AList.update A [] (dbmap d))\<rparr>),
                tmp_name w := None)\<rparr>)"
proof -
  from owner_steps_of [OF dist build owner] obtain la
    where la: "map_of (dbmap d) A = Some la" "steps_of (dbmap d) A = la" by blast
  have store': "fault (w\<lparr>stdin := ins\<rparr>) = NoFault" "tmp_name (w\<lparr>stdin := ins\<rparr>) \<noteq> p"
    using store by simp_all
  have c2: "confirm True (w\<lparr>stdin := line2 # ins\<rparr>) = (Inr (is_yes line2), w\<lparr>stdin := ins\<rparr>)"
    using confirm_Cons [of "w\<lparr>stdin := line2 # ins\<rparr>" line2 ins] by simp
  show ?thesis
    unfolding op_remove_def remove_step_def
    using load build norm owner key la ans rest
    by (simp add: truthy_def Let_def confirm_Cons c2 save_report_ok [OF store'] delete_update_same)
qed

text \<open>
  Removal of a step whose sequence key is not the empty string. When the reverse cache
  maps the step \<open>s\<close> to \<open>A\<close>, \<^verbatim>\<open>op_remove\<close> takes \<open>s\<close> out of the list of \<open>A\<close> and
  writes the document: under \<^verbatim>\<open>assume_yes\<close> an emptied entry is deleted; with a first
  answer that is a yes, a list that is not emptied is written as it is, and an emptied
  one is written whatever the second answer is, deleted on a yes and kept as an empty
  list otherwise. The save meets no fault.
\<close>

theorem remove_deletes_and_saves:
  assumes "load_db p w = Inr d"
    and "distinct (map fst (dbmap d))"
    and "build_reverse_cache d = Inr cache"
    and "normalize_step_name step = Inr s"
    and "cache s = Some A" and "A \<noteq> []"
    and "fault w = NoFault" and "tmp_name w \<noteq> p"
  shows "op_remove p step True w
       = (Inr (Removed s),
          w\<lparr>files := (files w)
               (p \<mapsto> Whole (d\<lparr>dbmap :=
                    (if filter (\<lambda>x. x \<noteq> s) (steps_of (dbmap d) A) = []
                     then AList.delete A (dbmap d)
                     else AList.update A (filter (\<lambda>x. x \<noteq> s) (steps_of (dbmap d) A)) (dbmap d))\<rparr>),
                tmp_name w := None)\<rparr>)
     \<and> (\<forall>line ins.
           stdin w = line # ins \<and> is_yes line
           \<and> filter (\<lambda>x. x \<noteq> s) (steps_of (dbmap d) A) \<noteq> [] \<longrightarrow>
           op_remove p step False w
             = (Inr (Removed s),
                w\<lparr>stdin := ins,
                  files := (files w)
                    (p \<mapsto> Whole (d\<lparr>dbmap :=
                       AList.update A (filter (\<lambda>x. x \<noteq> s) (steps_of (dbmap d) A)) (dbmap d)\<rparr>),
                     tmp_name w := None)\<rparr>))
     \<and> (\<forall>line line2 ins.
           stdin w = line # line2 # ins \<and> is_yes line
           \<and> filter (\<lambda>x. x \<noteq> s) (steps_of (dbmap d) A) = [] \<longrightarrow>
           op_remove p step False w
             = (Inr (Removed s),
                w\<lparr>stdin := ins,
                  files := (files w)
                    (p \<mapsto> Whole (d\<lparr>dbmap :=
                       (if is_yes line2 then AList.delete A (dbmap d)
                        else AList.update A [] (dbmap d))\<rparr>),
                     tmp_name w := None)\<rparr>))"
  using remove_assume_yes [OF assms] remove_confirmed_nonempty [OF assms]
    remove_confirmed_empty [OF assms]
  by blast

theorem remove_deletes_and_saves_witness:
  "load_db ''sequences.json'' asking_world
     = Inr \<lparr>version = 1, dbmap = [(''DOWN,DOWN'', [''open the menu''])]\<rparr>
   \<and> distinct (map fst [(''DOWN,DOWN'', [''open the menu''])])
   \<and> (\<exists>cache. build_reverse_cache \<lparr>version = 1, dbmap = [(''DOWN,DOWN'', [''open the menu''])]\<rparr>
                  = Inr cache \<and> cache ''open the menu'' = Some ''DOWN,DOWN'')
   \<and> normalize_step_name ''open the menu'' = Inr ''open the menu''
   \<and> ''DOWN,DOWN'' \<noteq> []
   \<and> fault asking_world = NoFault \<and> tmp_name asking_world \<noteq> ''sequences.json''
   \<and> stdin asking_world = [''y'', ''n''] \<and> is_yes ''y'' \<and> \<not> is_yes ''n''
   \<and> op_remove ''sequences.json'' ''open the menu'' False asking_world
       = (Inr (Removed ''open the menu''),
          asking_world\<lparr>stdin := [],
            files := (files asking_world)
              (''sequences.json'' \<mapsto> Whole \<lparr>version = 1, dbmap = [(''DOWN,DOWN'', [])]\<rparr>,
               tmp_name asking_world := None)\<rparr>)
   \<and> op_remove ''sequences.json'' ''open the menu'' True asking_world
       = (Inr (Removed ''open the menu''),
          asking_world\<lparr>files := (files asking_world)
              (''sequences.json'' \<mapsto> Whole \<lparr>version = 1, dbmap = []\<rparr>,
               tmp_name asking_world := None)\<rparr>)"
proof -
  let ?d = "\<lparr>version = 1, dbmap = [(''DOWN,DOWN'', [''open the menu''])]\<rparr>"
  have h1: "load_db ''sequences.json'' asking_world = Inr ?d"
    by (simp add: load_db_def asking_world_def)
  have h2: "distinct (map fst (dbmap ?d))" by simp
  have oo: "one_owner (dbmap ?d)" by (simp add: one_owner_def all_steps_def owners_def)
  then obtain cache where h3: "build_reverse_cache ?d = Inr cache"
    by (simp add: build_reverse_cache_Inr)
  have h5: "cache ''open the menu'' = Some ''DOWN,DOWN''"
    by (simp add: build_reverse_cache_Some [OF h3] owners_def)
  have h4: "normalize_step_name ''open the menu'' = Inr ''open the menu''" by code_simp
  have h6: "''DOWN,DOWN'' \<noteq> []" by simp
  have h7: "fault asking_world = NoFault" by (simp add: asking_world_def)
  have h8: "tmp_name asking_world \<noteq> ''sequences.json''" by (simp add: asking_world_def)
  have i: "stdin asking_world = [''y'', ''n'']" by (simp add: asking_world_def)
  have y: "is_yes ''y''" "\<not> is_yes ''n''" by code_simp+
  have e: "filter (\<lambda>x. x \<noteq> ''open the menu'') (steps_of (dbmap ?d) ''DOWN,DOWN'') = []"
    by (simp add: steps_of_def)
  note main = remove_deletes_and_saves [OF h1 h2 h3 h4 h5 h6 h7 h8]
  from main e have r1: "op_remove ''sequences.json'' ''open the menu'' True asking_world
       = (Inr (Removed ''open the menu''),
          asking_world\<lparr>files := (files asking_world)
              (''sequences.json'' \<mapsto> Whole \<lparr>version = 1, dbmap = []\<rparr>,
               tmp_name asking_world := None)\<rparr>)"
    by simp
  from main i y e have r2: "op_remove ''sequences.json'' ''open the menu'' False asking_world
       = (Inr (Removed ''open the menu''),
          asking_world\<lparr>stdin := [],
            files := (files asking_world)
              (''sequences.json'' \<mapsto> Whole \<lparr>version = 1, dbmap = [(''DOWN,DOWN'', [])]\<rparr>,
               tmp_name asking_world := None)\<rparr>)"
    by simp
  from h3 h5 have c: "\<exists>cache. build_reverse_cache ?d = Inr cache
      \<and> cache ''open the menu'' = Some ''DOWN,DOWN''" by blast
  from h1 h2 c h4 h6 h7 h8 i y r1 r2 show ?thesis by simp
qed

text \<open>
  The other operations look a step up with a membership test or take what the reverse
  cache holds, so for them the empty string is a key as any other: on the document whose
  one key is the empty string \<^verbatim>\<open>op_reassign\<close> moves the step \<open>open menu\<close> out of the list
  of that key, \<^verbatim>\<open>op_rename\<close> renames it there, and \<^verbatim>\<open>op_show\<close> prints that key.
\<close>

lemma empty_key_owns_its_step_elsewhere:
  "fst (op_reassign ''sequences.json'' (Some ''open menu'') (Some ''down'') empty_key_world)
       = Inr (Reassigned ''open menu'' '''' ''DOWN'')
   \<and> files (snd (op_reassign ''sequences.json'' (Some ''open menu'') (Some ''down'') empty_key_world))
         ''sequences.json''
       = Some (Whole \<lparr>version = 1, dbmap = [('''', []), (''DOWN'', [''open menu''])]\<rparr>)
   \<and> fst (op_rename ''sequences.json'' (Some ''open menu'') (Some ''close menu'') empty_key_world)
       = Inr (Renamed ''open menu'' ''close menu'')
   \<and> files (snd (op_rename ''sequences.json'' (Some ''open menu'') (Some ''close menu'') empty_key_world))
         ''sequences.json''
       = Some (Whole \<lparr>version = 1, dbmap = [('''', [''close menu''])]\<rparr>)
   \<and> fst (op_show ''sequences.json'' ''open menu'' empty_key_world)
       = Inr (ShowStep ''open menu'' (Some ''''))"
  by code_simp

text \<open>
  Claim C8: \<^verbatim>\<open>op_remove\<close> deletes an existing step from the list of its sequence and
  saves the document. This fails for a step listed under the empty string. In the
  document whose one key is the empty string the step \<open>open menu\<close> exists, under one key,
  and under \<^verbatim>\<open>assume_yes\<close> no confirmation is asked; \<^verbatim>\<open>op_remove\<close> reports the step as
  not found and leaves the document as it is. Its test \<^verbatim>\<open>if not seq\<close> takes the empty
  key that the reverse cache holds for a missing step.
\<close>

theorem remove_misses_step_under_empty_key:
  "''open menu'' \<in> set (all_steps [('''', [''open menu''])])
   \<and> one_owner [('''', [''open menu''])]
   \<and> files empty_key_world ''sequences.json''
       = Some (Whole \<lparr>version = 1, dbmap = [('''', [''open menu''])]\<rparr>)
   \<and> normalize_step_name ''open menu'' = Inr ''open menu''
   \<and> fst (op_remove ''sequences.json'' ''open menu'' True empty_key_world)
       = Inr (StepNotFound ''open menu'')
   \<and> files (snd (op_remove ''sequences.json'' ''open menu'' True empty_key_world)) ''sequences.json''
       = Some (Whole \<lparr>version = 1, dbmap = [('''', [''open menu''])]\<rparr>)"
  by code_simp

section \<open>Lint\<close>

lemma lint_steps_eq:
  "lint_steps seq steps (out, ok, seen)
     = (out @ step_issues seq steps seen, ok \<and> step_issues seq steps seen = [],
        (\<lambda>s. if s \<in> set steps then Some seq else seen s))"
proof (induction steps arbitrary: out ok seen)
  case Nil
  then show ?case by simp
next
  case (Cons s steps)
  have f: "(\<lambda>x. if x \<in> set steps then Some seq else (seen(s \<mapsto> seq)) x)
      = (\<lambda>x. if x \<in> set (s # steps) then Some seq else seen x)"
    by (auto simp: fun_eq_iff)
  have g: "(\<lambda>a. if a = s then Some seq else seen a) = seen(s \<mapsto> seq)"
    by (auto simp: fun_eq_iff)
  show ?case
    by (cases "normalize_step_name s"; cases "seen s")
       (simp_all add: Cons.IH f g)
qed

lemma all_steps_Nil: "all_steps [] = []"
  by (simp add: all_steps_def)

lemma all_steps_Cons: "all_steps ((seq, steps) # items) = steps @ all_steps items"
  by (simp add: all_steps_def)

lemma lint_items_eq:
  "\<exists>seen'. lint_items items (out, ok, seen)
     = (out @ item_issues items seen, ok \<and> item_issues items seen = [], seen')"
proof (induction items arbitrary: out ok seen)
  case Nil
  then show ?case by simp
next
  case (Cons item items)
  obtain seq steps where item: "item = (seq, steps)" by (cases item)
  from Cons.IH [of "out @ step_issues seq steps seen" "ok \<and> step_issues seq steps seen = []"
      "\<lambda>s. if s \<in> set steps then Some seq else seen s"]
  show ?case
    by (auto simp: item lint_steps_eq)
qed

lemma lint_keys_eq:
  "lint_keys keys (out, ok) = (out @ key_issues keys, ok \<and> key_issues keys = [])"
proof (induction keys arbitrary: out ok)
  case Nil
  then show ?case by simp
next
  case (Cons seq keys)
  show ?case
    by (cases "canonicalize_sequence seq") (simp_all add: Cons.IH)
qed

lemma lint_empty_eq: "lint_empty items out = out @ empty_issues items"
  by (induction items arbitrary: out) auto

lemma lint_db_eq:
  "lint_db d =
     (item_issues (dbmap d) Map.empty @ key_issues (map fst (dbmap d)) @ empty_issues (dbmap d),
      if item_issues (dbmap d) Map.empty = [] \<and> key_issues (map fst (dbmap d)) = [] then 0 else 1)"
proof -
  obtain seen' where "lint_items (dbmap d) ([], True, Map.empty)
      = ([] @ item_issues (dbmap d) Map.empty, True \<and> item_issues (dbmap d) Map.empty = [], seen')"
    using lint_items_eq by blast
  then show ?thesis
    by (simp add: lint_db_def lint_keys_eq lint_empty_eq)
qed

lemma step_issues_is_error: "list_all is_error (step_issues seq steps seen)"
  by (induction steps arbitrary: seen) (auto split: sum.splits option.splits)

lemma item_issues_is_error: "list_all is_error (item_issues items seen)"
  by (induction items arbitrary: seen) (auto simp: step_issues_is_error)

lemma key_issues_is_error: "list_all is_error (key_issues keys)"
  by (induction keys) (auto split: sum.splits)

lemma empty_issues_not_error: "list_all (\<lambda>i. \<not> is_error i) (empty_issues items)"
  by (induction items) auto

lemma ErrStep_step_issues:
  "ErrStep s e \<in> set (step_issues seq steps seen) \<longleftrightarrow> s \<in> set steps \<and> normalize_step_name s = Inl e"
  by (induction steps arbitrary: seen) (auto split: sum.splits option.splits if_splits)

lemma ErrStep_item_issues:
  "ErrStep s e \<in> set (item_issues items seen)
     \<longleftrightarrow> s \<in> set (all_steps items) \<and> normalize_step_name s = Inl e"
  by (induction items arbitrary: seen)
     (auto simp: ErrStep_step_issues all_steps_Nil all_steps_Cons)

lemma ErrDuplicate_step_issues:
  "ErrDuplicate s q k \<in> set (step_issues seq steps seen)
     \<longleftrightarrow> k = seq \<and> s \<in> set steps \<and> seen s = Some q \<and> q \<noteq> seq"
  by (induction steps arbitrary: seen) (auto split: sum.splits option.splits if_splits)

lemma ErrSequence_key_issues:
  "ErrSequence k e \<in> set (key_issues keys) \<longleftrightarrow> k \<in> set keys \<and> canonicalize_sequence k = Inl e"
  by (induction keys) (auto split: sum.splits)

lemma WarnEmpty_empty_issues:
  "WarnEmpty k \<in> set (empty_issues items) \<longleftrightarrow> (k, []) \<in> set items"
  by (induction items) auto

lemma other_step_issues:
  "ErrSequence k e \<notin> set (step_issues seq steps seen)"
  "WarnEmpty k \<notin> set (step_issues seq steps seen)"
  by (induction steps arbitrary: seen) (auto split: sum.splits option.splits if_splits)

lemma other_item_issues:
  "ErrSequence k e \<notin> set (item_issues items seen)"
  "WarnEmpty k \<notin> set (item_issues items seen)"
  by (induction items arbitrary: seen) (auto simp: other_step_issues)

lemma other_key_issues:
  "ErrStep s e \<notin> set (key_issues keys)"
  "ErrDuplicate s q k \<notin> set (key_issues keys)"
  "WarnEmpty k \<notin> set (key_issues keys)"
  by (induction keys) (auto split: sum.splits)

lemma other_empty_issues:
  "ErrStep s e \<notin> set (empty_issues items)"
  "ErrDuplicate s q k \<notin> set (empty_issues items)"
  "ErrSequence k e \<notin> set (empty_issues items)"
  by (induction items) auto

lemma ErrDuplicate_item_issues:
  "(\<exists>q k. ErrDuplicate s q k \<in> set (item_issues items seen))
     \<longleftrightarrow> (\<exists>k \<in> set (owners items s). \<exists>q. seen s = Some q \<and> q \<noteq> k)
        \<or> (\<exists>k1 \<in> set (owners items s). \<exists>k2 \<in> set (owners items s). k1 \<noteq> k2)"
proof (induction items arbitrary: seen)
  case Nil
  then show ?case by simp
next
  case (Cons item items)
  obtain seq steps where item: "item = (seq, steps)" by (cases item)
  let ?seen = "\<lambda>x. if x \<in> set steps then Some seq else seen x"
  show ?case
  proof (cases "s \<in> set steps")
    case True
    then have own: "owners (item # items) s = seq # owners items s"
      by (simp add: item owners_Cons)
    have "(\<exists>q k. ErrDuplicate s q k \<in> set (item_issues (item # items) seen))
        \<longleftrightarrow> (\<exists>q. seen s = Some q \<and> q \<noteq> seq)
            \<or> (\<exists>q k. ErrDuplicate s q k \<in> set (item_issues items ?seen))"
      using True by (auto simp: item ErrDuplicate_step_issues)
    also have "\<dots> \<longleftrightarrow> (\<exists>q. seen s = Some q \<and> q \<noteq> seq)
            \<or> (\<exists>k \<in> set (owners items s). seq \<noteq> k)
            \<or> (\<exists>k1 \<in> set (owners items s). \<exists>k2 \<in> set (owners items s). k1 \<noteq> k2)"
      unfolding Cons.IH using True by auto
    finally show ?thesis
      unfolding own by (auto; metis)
  next
    case False
    then have own: "owners (item # items) s = owners items s"
      by (simp add: item owners_Cons)
    have "(\<exists>q k. ErrDuplicate s q k \<in> set (item_issues (item # items) seen))
        \<longleftrightarrow> (\<exists>q k. ErrDuplicate s q k \<in> set (item_issues items ?seen))"
      using False by (auto simp: item ErrDuplicate_step_issues)
    then show ?thesis
      unfolding own Cons.IH using False by simp
  qed
qed

text \<open>
  Claim C9, as the code has it. \<^verbatim>\<open>op_lint\<close> reads the whole document and returns with
  the world as it was. Its output has an error line for a step exactly when
  \<^verbatim>\<open>normalize_step_name\<close> rejects that step of the document, a duplicate line for a step
  exactly when the step is listed under two different keys, an error line for a key
  exactly when \<^verbatim>\<open>canonicalize_sequence\<close> rejects that key, and a warning for exactly the
  keys with an empty list. The exit status is 1 when some line is an error and 0
  otherwise, so warnings alone give 0.
\<close>

theorem lint_reports_and_status:
  assumes "load_db p w = Inr d"
  shows "\<exists>issues status.
      op_lint p w = (Inr (issues, status), w)
    \<and> (\<forall>s e. ErrStep s e \<in> set issues
          \<longleftrightarrow> s \<in> set (all_steps (dbmap d)) \<and> normalize_step_name s = Inl e)
    \<and> (\<forall>s. (\<exists>q k. ErrDuplicate s q k \<in> set issues)
          \<longleftrightarrow> (\<exists>k1 \<in> set (owners (dbmap d) s). \<exists>k2 \<in> set (owners (dbmap d) s). k1 \<noteq> k2))
    \<and> (\<forall>k e. ErrSequence k e \<in> set issues
          \<longleftrightarrow> k \<in> set (map fst (dbmap d)) \<and> canonicalize_sequence k = Inl e)
    \<and> (\<forall>k. WarnEmpty k \<in> set issues \<longleftrightarrow> (k, []) \<in> set (dbmap d))
    \<and> (status = 1 \<longleftrightarrow> (\<exists>i \<in> set issues. is_error i))
    \<and> (status = 0 \<longleftrightarrow> \<not> (\<exists>i \<in> set issues. is_error i))"
proof -
  let ?a = "item_issues (dbmap d) Map.empty"
  let ?b = "key_issues (map fst (dbmap d))"
  let ?c = "empty_issues (dbmap d)"
  let ?status = "if ?a = [] \<and> ?b = [] then 0 else 1 :: nat"
  have run: "op_lint p w = (Inr (?a @ ?b @ ?c, ?status), w)"
    using assms by (simp add: op_lint_def lint_db_eq)
  have s1: "ErrStep s e \<in> set (?a @ ?b @ ?c)
      \<longleftrightarrow> s \<in> set (all_steps (dbmap d)) \<and> normalize_step_name s = Inl e" for s e
    by (simp add: ErrStep_item_issues other_key_issues other_empty_issues)
  have s2: "(\<exists>q k. ErrDuplicate s q k \<in> set (?a @ ?b @ ?c))
      \<longleftrightarrow> (\<exists>k1 \<in> set (owners (dbmap d) s). \<exists>k2 \<in> set (owners (dbmap d) s). k1 \<noteq> k2)" for s
    using ErrDuplicate_item_issues [of s "dbmap d" Map.empty]
    by (simp add: other_key_issues other_empty_issues)
  have s3: "ErrSequence k e \<in> set (?a @ ?b @ ?c)
      \<longleftrightarrow> k \<in> set (map fst (dbmap d)) \<and> canonicalize_sequence k = Inl e" for k e
    using ErrSequence_key_issues [of k e "map fst (dbmap d)"]
    by (simp add: other_item_issues other_empty_issues)
  have s4: "WarnEmpty k \<in> set (?a @ ?b @ ?c) \<longleftrightarrow> (k, []) \<in> set (dbmap d)" for k
    by (simp add: WarnEmpty_empty_issues other_item_issues other_key_issues)
  have err: "(\<exists>i \<in> set (?a @ ?b @ ?c). is_error i) \<longleftrightarrow> \<not> (?a = [] \<and> ?b = [])"
  proof
    assume "\<exists>i \<in> set (?a @ ?b @ ?c). is_error i"
    then obtain i where "i \<in> set (?a @ ?b @ ?c)" "is_error i" by blast
    with empty_issues_not_error [of "dbmap d"] have "i \<in> set ?a \<or> i \<in> set ?b"
      by (auto simp: list_all_iff)
    then show "\<not> (?a = [] \<and> ?b = [])" by auto
  next
    assume "\<not> (?a = [] \<and> ?b = [])"
    then obtain i where "i \<in> set ?a \<or> i \<in> set ?b"
      by (cases ?a; cases ?b) auto
    with item_issues_is_error [of "dbmap d" Map.empty] key_issues_is_error [of "map fst (dbmap d)"]
    have "i \<in> set (?a @ ?b @ ?c) \<and> is_error i"
      by (auto simp: list_all_iff)
    then show "\<exists>i \<in> set (?a @ ?b @ ?c). is_error i" by blast
  qed
  have s5: "?status = 1 \<longleftrightarrow> (\<exists>i \<in> set (?a @ ?b @ ?c). is_error i)"
    unfolding err by simp
  have s6: "?status = 0 \<longleftrightarrow> \<not> (\<exists>i \<in> set (?a @ ?b @ ?c). is_error i)"
    unfolding err by simp
  show ?thesis
    by (intro exI [of _ "?a @ ?b @ ?c"] exI [of _ ?status] conjI allI run s1 s2 s3 s4 s5 s6)
qed

theorem lint_reports_and_status_witness:
  "load_db ''sequences.json'' messy_world
     = Inr \<lparr>version = 1,
            dbmap = [(''UP'', [''Open'', ''close menu'']), (''FOO'', [''close menu'']),
                     (''DOWN'', [])]\<rparr>
   \<and> (\<exists>issues status.
         op_lint ''sequences.json'' messy_world = (Inr (issues, status), messy_world)
         \<and> ErrStep ''Open'' LowercaseOnlyAndRemovePunctuation \<in> set issues
         \<and> (\<exists>q k. ErrDuplicate ''close menu'' q k \<in> set issues)
         \<and> ErrSequence ''FOO'' (UnknownTokens [''FOO'']) \<in> set issues
         \<and> WarnEmpty ''DOWN'' \<in> set issues
         \<and> status = 1)"
proof -
  let ?d = "\<lparr>version = 1,
            dbmap = [(''UP'', [''Open'', ''close menu'']), (''FOO'', [''close menu'']),
                     (''DOWN'', [])]\<rparr>"
  have h: "load_db ''sequences.json'' messy_world = Inr ?d"
    by (simp add: load_db_def messy_world_def)
  have n: "normalize_step_name ''Open'' = Inl LowercaseOnlyAndRemovePunctuation" by code_simp
  have c: "canonicalize_sequence ''FOO'' = Inl (UnknownTokens [''FOO''])" by code_simp
  have o: "owners (dbmap ?d) ''close menu'' = [''UP'', ''FOO'']"
    by (simp add: owners_def)
  have a: "''Open'' \<in> set (all_steps (dbmap ?d))" by (simp add: all_steps_def)
  from lint_reports_and_status [OF h] obtain issues status where
    run: "op_lint ''sequences.json'' messy_world = (Inr (issues, status), messy_world)"
    and s1: "\<And>s e. ErrStep s e \<in> set issues
          \<longleftrightarrow> s \<in> set (all_steps (dbmap ?d)) \<and> normalize_step_name s = Inl e"
    and s2: "\<And>s. (\<exists>q k. ErrDuplicate s q k \<in> set issues)
          \<longleftrightarrow> (\<exists>k1 \<in> set (owners (dbmap ?d) s). \<exists>k2 \<in> set (owners (dbmap ?d) s). k1 \<noteq> k2)"
    and s3: "\<And>k e. ErrSequence k e \<in> set issues
          \<longleftrightarrow> k \<in> set (map fst (dbmap ?d)) \<and> canonicalize_sequence k = Inl e"
    and s4: "\<And>k. WarnEmpty k \<in> set issues \<longleftrightarrow> (k, []) \<in> set (dbmap ?d)"
    and s5: "status = 1 \<longleftrightarrow> (\<exists>i \<in> set issues. is_error i)"
    by blast
  have e1: "ErrStep ''Open'' LowercaseOnlyAndRemovePunctuation \<in> set issues"
    using a n by (simp add: s1)
  have e2: "\<exists>q k. ErrDuplicate ''close menu'' q k \<in> set issues"
    unfolding s2 o by (intro bexI [of _ "''UP''"] bexI [of _ "''FOO''"]) simp_all
  have e3: "ErrSequence ''FOO'' (UnknownTokens [''FOO'']) \<in> set issues"
    using c by (simp add: s3)
  have e4: "WarnEmpty ''DOWN'' \<in> set issues"
    by (simp add: s4)
  have e5: "status = 1"
    unfolding s5 using e1 by (intro bexI [of _ "ErrStep ''Open'' LowercaseOnlyAndRemovePunctuation"]) simp_all
  from h run e1 e2 e3 e4 e5 show ?thesis by blast
qed

text \<open>
  The claim itself says that every malformed step name and every malformed sequence key
  is reported. The step \<open>open  menu\<close>, with two spaces, does not match the pattern of a
  step name and is not its own normal form, and the key \<open>down down\<close> is not its own
  canonical form; \<^verbatim>\<open>normalize_step_name\<close> and \<^verbatim>\<open>canonicalize_sequence\<close> accept both, so
  \<^verbatim>\<open>op_lint\<close> prints nothing about them and exits with status 0.
\<close>

theorem lint_accepts_uncanonical_names:
  "\<not> step_name_re_fullmatch ''open  menu''
   \<and> normalize_step_name ''open  menu'' = Inr ''open menu''
   \<and> canonicalize_sequence ''down down'' = Inr ''DOWN,DOWN''
   \<and> files sloppy_world ''sequences.json''
       = Some (Whole \<lparr>version = 1, dbmap = [(''down down'', [''open  menu''])]\<rparr>)
   \<and> fst (op_lint ''sequences.json'' sloppy_world) = Inr ([], 0)"
  by code_simp

section \<open>Operations keep the data model\<close>

lemma steps_of_all_steps: "s \<in> set (steps_of m k) \<Longrightarrow> s \<in> set (all_steps m)"
proof -
  assume "s \<in> set (steps_of m k)"
  then obtain l where "map_of m k = Some l" "s \<in> set l"
    unfolding in_steps_of by blast
  then have "(k, l) \<in> set m" by (simp add: map_of_SomeD)
  with \<open>s \<in> set l\<close> show ?thesis
    by (force simp: all_steps_def)
qed

lemma good_update:
  assumes g: "good_map m" and k: "k \<noteq> []"
    and v: "\<And>s k'. s \<in> set v \<Longrightarrow> s \<in> set (steps_of m k') \<Longrightarrow> k' = k"
  shows "good_map (AList.update k v m)"
proof -
  from g have d: "distinct (map fst m)" and o: "one_owner m" and e: "[] \<notin> set (map fst m)"
    by (simp_all add: good_map_def)
  have d': "distinct (map fst (AList.update k v m))"
    using d by (simp add: distinct_update)
  have "fst ` set (AList.update k v m) = {k} \<union> fst ` set m"
    by (rule dom_update)
  with e k have e': "[] \<notin> set (map fst (AList.update k v m))"
    by auto
  have o': "one_owner (AList.update k v m)"
    unfolding one_owner_steps_of [OF d'] steps_of_update
  proof (intro allI impI)
    fix s k1 k2
    assume a: "s \<in> set (if k1 = k then v else steps_of m k1)"
      and b: "s \<in> set (if k2 = k then v else steps_of m k2)"
    show "k1 = k2"
    proof (cases "k1 = k"; cases "k2 = k")
      assume "k1 = k" "k2 = k" then show ?thesis by simp
    next
      assume "k1 = k" "k2 \<noteq> k" with a b v [of s k2] show ?thesis by simp
    next
      assume "k1 \<noteq> k" "k2 = k" with a b v [of s k1] show ?thesis by simp
    next
      assume "k1 \<noteq> k" "k2 \<noteq> k"
      with a b o show ?thesis
        unfolding one_owner_steps_of [OF d] by simp
    qed
  qed
  from d' o' e' show ?thesis by (simp add: good_map_def)
qed

lemma good_delete:
  assumes g: "good_map m"
  shows "good_map (AList.delete k m)"
proof -
  from g have d: "distinct (map fst m)" and o: "one_owner m" and e: "[] \<notin> set (map fst m)"
    by (simp_all add: good_map_def)
  have d': "distinct (map fst (AList.delete k m))"
    using d by (simp add: distinct_delete)
  have e': "[] \<notin> set (map fst (AList.delete k m))"
    using e dom_delete_subset [of k m] by auto
  have o': "one_owner (AList.delete k m)"
    unfolding one_owner_steps_of [OF d'] steps_of_delete
    using o unfolding one_owner_steps_of [OF d]
    by (auto split: if_splits)
  from d' o' e' show ?thesis by (simp add: good_map_def)
qed

lemma good_one_owner_steps:
  "good_map m \<Longrightarrow> s \<in> set (steps_of m k1) \<Longrightarrow> s \<in> set (steps_of m k2) \<Longrightarrow> k1 = k2"
  using one_owner_steps_of [of m] by (auto simp: good_map_def)

lemma good_setdefault_append:
  assumes g: "good_map m" and k: "seq \<noteq> []" and s: "s \<notin> set (all_steps m)"
  shows "good_map (setdefault_append m seq s)"
proof -
  from s have n: "s \<notin> set (steps_of m k')" for k'
    using steps_of_all_steps by blast
  have "good_map (AList.update seq (sort (steps_of m seq @ [s])) m)"
  proof (rule good_update [OF g k])
    fix x k'
    assume "x \<in> set (sort (steps_of m seq @ [s]))" and x: "x \<in> set (steps_of m k')"
    then have "x \<in> set (steps_of m seq) \<or> x = s" by auto
    with x n [of k'] show "k' = seq"
      using good_one_owner_steps [OF g] by blast
  qed
  with n [of seq] show ?thesis
    by (simp add: setdefault_append_eq)
qed

lemma same_store_refl: "same_store w w"
  by (simp add: same_store_def)

lemma same_store_trans: "same_store w w1 \<Longrightarrow> same_store w1 w2 \<Longrightarrow> same_store w w2"
  by (simp add: same_store_def)

lemma same_store_stdin: "same_store w (w\<lparr>stdin := ins\<rparr>)"
  by (simp add: same_store_def)

lemma same_store_load: "same_store w w' \<Longrightarrow> load_db p w' = load_db p w"
  by (simp add: same_store_def load_db_def)

lemma input_same: "input w = (r, w') \<Longrightarrow> same_store w w'"
  by (auto simp: input_def same_store_def split: list.splits)

lemma prompt_valid_step_name_same: "prompt_valid_step_name w = (r, w') \<Longrightarrow> same_store w w'"
  by (auto simp: prompt_valid_step_name_def same_store_def split: prod.splits)

lemma prompt_sequence_same: "prompt_sequence w = (r, w') \<Longrightarrow> same_store w w'"
  by (auto simp: prompt_sequence_def same_store_def split: prod.splits)

lemma prompt_step_same: "prompt_step w = (r, w') \<Longrightarrow> same_store w w'"
  unfolding prompt_step_def by (rule prompt_valid_step_name_same)

lemma confirm_same: "confirm b w = (r, w') \<Longrightarrow> same_store w w'"
  by (auto simp: confirm_def Let_def split: prod.splits sum.splits if_splits dest: input_same)

lemma step_from_arg_same: "step_from_arg a w = (r, w') \<Longrightarrow> same_store w w'"
  by (auto simp: step_from_arg_def same_store_refl split: option.splits sum.splits if_splits
      dest: prompt_step_same)

lemma prompt_until_Inr: "prompt_until parse ins = (Inr v, rest) \<Longrightarrow> \<exists>x. parse x = Inr v"
  by (induction ins) (auto split: sum.splits)

lemma seq_from_arg_same: "seq_from_arg a w = (r, w') \<Longrightarrow> same_store w w'"
  by (auto simp: seq_from_arg_def same_store_refl split: option.splits sum.splits if_splits
      dest: prompt_sequence_same)

lemma seq_from_arg_Inr: "seq_from_arg a w = (Inr seq, w') \<Longrightarrow> \<exists>x. canonicalize_sequence x = Inr seq"
  by (auto simp: seq_from_arg_def prompt_sequence_def
      split: option.splits sum.splits if_splits prod.splits dest: prompt_until_Inr)

lemma known_step_same: "known_step c s w = (r, w') \<Longrightarrow> same_store w w'"
  by (auto simp: known_step_def same_store_refl split: prod.splits sum.splits if_splits
      dest: prompt_step_same)

lemma known_step_Inr: "known_step c s w = (Inr (Inr s'), w') \<Longrightarrow> c s' \<noteq> None"
  by (auto simp: known_step_def split: prod.splits sum.splits if_splits)

lemma unused_step_same: "unused_step c s w = (r, w') \<Longrightarrow> same_store w w'"
  by (auto simp: unused_step_def same_store_refl split: prod.splits sum.splits if_splits
      dest: prompt_step_same)

lemma unused_step_Inr: "unused_step c s w = (Inr (Inr s'), w') \<Longrightarrow> c s' = None"
  by (auto simp: unused_step_def split: prod.splits sum.splits if_splits)

lemma pick_new_name_Inr: "pick_new_name c ins = (Inr n, rest) \<Longrightarrow> c n = None"
  by (induction ins) (auto split: sum.splits if_splits)

lemma kept_Inl: "kept p (Inl e, w')"
  by (simp add: kept_def)

lemma kept_unchanged:
  "same_store w w' \<Longrightarrow> load_db p w = Inr d \<Longrightarrow> good_map (dbmap d) \<Longrightarrow> kept p (x, w')"
  by (cases x) (simp_all add: kept_def same_store_load)

lemma kept_save:
  assumes "tmp_name w \<noteq> p" and "good_map (dbmap d')"
  shows "kept p (save_report p d' r w)"
proof (cases "fault w = NoFault")
  case True
  from save_report_ok [OF True assms(1)] assms show ?thesis
    by (simp add: kept_def load_db_def)
next
  case False
  then show ?thesis
    by (simp add: save_report_def atomic_save_def kept_def)
qed

lemma join_nonempty: "ps \<noteq> [] \<Longrightarrow> hd ps \<noteq> [] \<Longrightarrow> join sep ps \<noteq> []"
  by (cases "(sep, ps)" rule: join.cases) simp_all

lemma canonicalize_sequence_nonempty:
  assumes "canonicalize_sequence x = Inr seq"
  shows "seq \<noteq> []"
proof -
  let ?tokens = "map (\<lambda>t. upper (strip t)) (filter (\<lambda>t. strip t \<noteq> []) (re_split x))"
  from assms have ne: "?tokens \<noteq> []" and seq: "seq = join '','' ?tokens"
    by (auto simp: canonicalize_sequence_def Let_def split: if_splits)
  have "\<forall>t \<in> set ?tokens. t \<noteq> []"
    by (auto simp: upper_def)
  with ne have "hd ?tokens \<noteq> []"
    using hd_in_set by blast
  with ne show ?thesis
    unfolding seq by (rule join_nonempty)
qed

lemma all_steps_steps_of_distinct:
  assumes "distinct (map fst m)" and "s \<in> set (all_steps m)"
  shows "\<exists>k. s \<in> set (steps_of m k)"
proof -
  from assms(2) obtain k where "k \<in> set (owners m s)"
    unfolding all_steps_steps_of by blast
  then show ?thesis
    unfolding in_owners_steps_of [OF assms(1)] by blast
qed

lemma good_cache_None:
  assumes "build_reverse_cache d = Inr c" and "c s = None"
  shows "s \<notin> set (all_steps (dbmap d))"
  using assms by (simp add: build_reverse_cache_None)

lemma good_cache_Some:
  assumes g: "good_map (dbmap d)" and b: "build_reverse_cache d = Inr c" and c: "c s = Some k"
  shows "k \<noteq> []" and "\<exists>la. map_of (dbmap d) k = Some la \<and> steps_of (dbmap d) k = la \<and> s \<in> set la"
proof -
  from g have d: "distinct (map fst (dbmap d))" and e: "[] \<notin> set (map fst (dbmap d))"
    by (simp_all add: good_map_def)
  from owner_steps_of [OF d b c]
  show "\<exists>la. map_of (dbmap d) k = Some la \<and> steps_of (dbmap d) k = la \<and> s \<in> set la"
    by blast
  then obtain la where "map_of (dbmap d) k = Some la" by blast
  then have "(k, la) \<in> set (dbmap d)" by (rule map_of_SomeD)
  then have "fst (k, la) \<in> fst ` set (dbmap d)" by (rule imageI)
  then have "k \<in> set (map fst (dbmap d))" by simp
  with e show "k \<noteq> []" by blast
qed

lemma add_step_kept:
  assumes g: "good_map (dbmap d)" and b: "build_reverse_cache d = Inr c"
    and l: "load_db p w0 = Inr d" and ss: "same_store w0 w" and t: "tmp_name w0 \<noteq> p"
    and k: "seq \<noteq> []"
  shows "kept p (add_step p d c step seq w)"
proof -
  from ss t have t': "tmp_name w \<noteq> p" by (simp add: same_store_def)
  have save: "kept p (save_report p (d\<lparr>dbmap := setdefault_append (dbmap d) seq n\<rparr>) r w')"
    if "c n = None" and "tmp_name w' \<noteq> p" for n r w'
  proof (rule kept_save [OF that(2)])
    from good_cache_None [OF b that(1)] g k
    show "good_map (dbmap (d\<lparr>dbmap := setdefault_append (dbmap d) seq n\<rparr>))"
      by (simp add: good_setdefault_append)
  qed
  show ?thesis
  proof (cases "c step = Some seq")
    case True
    then have "add_step p d c step seq w = (Inr (NoChange step seq), w)"
      by (simp add: add_step_def)
    with kept_unchanged [OF ss l g] show ?thesis by simp
  next
    case False
    show ?thesis
    proof (cases "truthy (c step)")
      case True
      obtain r rest where pk: "pick_new_name c (stdin w) = (r, rest)"
        by (cases "pick_new_name c (stdin w)")
      show ?thesis
      proof (cases r)
        case (Inl e)
        with pk True False show ?thesis
          by (simp add: add_step_def kept_Inl)
      next
        case (Inr n)
        with pk have "c n = None" by (simp add: pick_new_name_Inr)
        from save [OF this, of "w\<lparr>stdin := rest\<rparr>"] t' pk Inr True False show ?thesis
          by (simp add: add_step_def)
      qed
    next
      case nt: False
      have "c step = None"
      proof (cases "c step")
        case None
        then show ?thesis .
      next
        case (Some q)
        with nt have "q = []" by (simp add: truthy_def)
        with good_cache_Some(1) [OF g b Some] show ?thesis by simp
      qed
      from save [OF this t'] nt False show ?thesis
        by (simp add: add_step_def)
    qed
  qed
qed

lemma op_add_kept:
  assumes l: "load_db p w = Inr d" and g: "good_map (dbmap d)" and t: "tmp_name w \<noteq> p"
  shows "kept p (op_add p w)"
proof -
  from g obtain c where b: "build_reverse_cache d = Inr c"
    by (auto simp: good_map_def build_reverse_cache_Inr)
  obtain r1 w1 where p1: "prompt_valid_step_name w = (r1, w1)"
    by (cases "prompt_valid_step_name w")
  then have s1: "same_store w w1" by (rule prompt_valid_step_name_same)
  show ?thesis
  proof (cases r1)
    case (Inl e)
    with l b p1 show ?thesis by (simp add: op_add_def kept_Inl)
  next
    case step: (Inr step)
    obtain r2 w2 where p2: "input w1 = (r2, w2)" by (cases "input w1")
    then have s2: "same_store w w2"
      using s1 input_same same_store_trans by blast
    show ?thesis
    proof (cases r2)
      case (Inl e)
      with l b p1 step p2 show ?thesis by (simp add: op_add_def kept_Inl)
    next
      case line: (Inr line)
      show ?thesis
      proof (cases "canonicalize_sequence (strip line)")
        case (Inl e)
        with l b p1 step p2 line kept_unchanged [OF s2 l g] show ?thesis
          by (simp add: op_add_def)
      next
        case (Inr seq)
        from add_step_kept [OF g b l s2 t canonicalize_sequence_nonempty [OF Inr]]
        show ?thesis using l b p1 step p2 line Inr by (simp add: op_add_def)
      qed
    qed
  qed
qed

lemma good_filter_update:
  assumes g: "good_map m" and k: "k \<noteq> []" and la: "steps_of m k = la" and sub: "set v \<subseteq> set la"
  shows "good_map (AList.update k v m)"
proof (rule good_update [OF g k])
  fix s k'
  assume "s \<in> set v" and "s \<in> set (steps_of m k')"
  with sub la have "s \<in> set (steps_of m k)" by auto
  with \<open>s \<in> set (steps_of m k')\<close> show "k' = k"
    using good_one_owner_steps [OF g] by blast
qed

lemma removed_not_listed:
  assumes g: "good_map m" and la: "steps_of m k = la"
    and s: "s \<in> set la"
  shows "s \<notin> set (all_steps (AList.update k (filter (\<lambda>x. x \<noteq> s) la) m))"
proof
  let ?m1 = "AList.update k (filter (\<lambda>x. x \<noteq> s) la) m"
  assume a: "s \<in> set (all_steps ?m1)"
  from g have "distinct (map fst ?m1)"
    by (simp add: good_map_def distinct_update)
  from all_steps_steps_of_distinct [OF this a] obtain k' where k': "s \<in> set (steps_of ?m1 k')"
    by blast
  show False
  proof (cases "k' = k")
    case True
    with k' show False by (simp add: steps_of_update)
  next
    case False
    with k' have "s \<in> set (steps_of m k')" by (simp add: steps_of_update)
    moreover from la s have "s \<in> set (steps_of m k)" by simp
    ultimately have "k' = k" using good_one_owner_steps [OF g] by blast
    with False show False by simp
  qed
qed

lemma move_step_kept:
  assumes g: "good_map (dbmap d)" and b: "build_reverse_cache d = Inr c"
    and l: "load_db p w0 = Inr d" and ss: "same_store w0 w" and t: "tmp_name w0 \<noteq> p"
    and k: "new_seq \<noteq> []"
  shows "kept p (move_step p d c s new_seq w)"
proof (cases "c s")
  case None
  then show ?thesis by (simp add: move_step_def kept_Inl)
next
  case (Some old_seq)
  from ss t have t': "tmp_name w \<noteq> p" by (simp add: same_store_def)
  from good_cache_Some [OF g b Some] obtain la where old: "old_seq \<noteq> []"
    and la: "map_of (dbmap d) old_seq = Some la" "steps_of (dbmap d) old_seq = la" "s \<in> set la"
    by blast
  show ?thesis
  proof (cases "old_seq = new_seq")
    case True
    with Some kept_unchanged [OF ss l g] show ?thesis
      by (simp add: move_step_def)
  next
    case False
    let ?m1 = "AList.update old_seq (filter (\<lambda>x. x \<noteq> s) la) (dbmap d)"
    have g1: "good_map ?m1"
      by (rule good_filter_update [OF g old la(2)]) auto
    have "s \<notin> set (all_steps ?m1)"
      by (rule removed_not_listed [OF g la(2,3)])
    with g1 k have "good_map (setdefault_append ?m1 new_seq s)"
      by (rule good_setdefault_append)
    then have "kept p (save_report p (d\<lparr>dbmap := setdefault_append ?m1 new_seq s\<rparr>)
        (Reassigned s old_seq new_seq) w)"
      by (intro kept_save [OF t']) simp
    with Some False la(1) show ?thesis
      by (simp add: move_step_def Let_def)
  qed
qed

lemma op_reassign_kept:
  assumes l: "load_db p w = Inr d" and g: "good_map (dbmap d)" and t: "tmp_name w \<noteq> p"
  shows "kept p (op_reassign p step raw w)"
proof -
  from g obtain c where b: "build_reverse_cache d = Inr c"
    by (auto simp: good_map_def build_reverse_cache_Inr)
  obtain r1 w1 where p1: "step_from_arg step w = (r1, w1)"
    by (cases "step_from_arg step w")
  then have s1: "same_store w w1" by (rule step_from_arg_same)
  show ?thesis
  proof (cases r1)
    case (Inl e)
    with l b p1 show ?thesis by (simp add: op_reassign_def kept_Inl)
  next
    case n: (Inr step_n)
    obtain r2 w2 where p2: "known_step c step_n w1 = (r2, w2)"
      by (cases "known_step c step_n w1")
    then have s2: "same_store w w2"
      using s1 known_step_same same_store_trans by blast
    show ?thesis
    proof (cases r2)
      case (Inl e)
      with l b p1 n p2 show ?thesis by (simp add: op_reassign_def kept_Inl)
    next
      case f: (Inr found)
      show ?thesis
      proof (cases found)
        case (Inl missing)
        with l b p1 n p2 f kept_unchanged [OF s2 l g] show ?thesis
          by (simp add: op_reassign_def)
      next
        case s: (Inr s)
        obtain r3 w3 where p3: "seq_from_arg raw w2 = (r3, w3)"
          by (cases "seq_from_arg raw w2")
        then have s3: "same_store w w3"
          using s2 seq_from_arg_same same_store_trans by blast
        show ?thesis
        proof (cases r3)
          case (Inl e)
          with l b p1 n p2 f s p3 show ?thesis by (simp add: op_reassign_def kept_Inl)
        next
          case (Inr new_seq)
          with p3 obtain x where "canonicalize_sequence x = Inr new_seq"
            using seq_from_arg_Inr by blast
          then have "new_seq \<noteq> []" by (rule canonicalize_sequence_nonempty)
          from move_step_kept [OF g b l s3 t this]
          show ?thesis using l b p1 n p2 f s p3 Inr by (simp add: op_reassign_def)
        qed
      qed
    qed
  qed
qed

lemma rename_step_kept:
  assumes g: "good_map (dbmap d)" and b: "build_reverse_cache d = Inr c"
    and l: "load_db p w0 = Inr d" and ss: "same_store w0 w" and t: "tmp_name w0 \<noteq> p"
    and n: "c new_n = None"
  shows "kept p (rename_step p d c old_n new_n w)"
proof (cases "c old_n")
  case None
  then show ?thesis by (simp add: rename_step_def kept_Inl)
next
  case (Some seq)
  from ss t have t': "tmp_name w \<noteq> p" by (simp add: same_store_def)
  from good_cache_Some [OF g b Some] obtain lst where seq: "seq \<noteq> []"
    and lst: "map_of (dbmap d) seq = Some lst" "steps_of (dbmap d) seq = lst"
    by blast
  let ?v = "sort (map (\<lambda>s. if s = old_n then new_n else s) lst)"
  have "good_map (AList.update seq ?v (dbmap d))"
  proof (rule good_update [OF g seq])
    fix s k'
    assume v: "s \<in> set ?v" and k': "s \<in> set (steps_of (dbmap d) k')"
    from k' have "s \<in> set (all_steps (dbmap d))" by (rule steps_of_all_steps)
    with good_cache_None [OF b n] have "s \<noteq> new_n" by auto
    with v have "s \<in> set lst" by (auto split: if_splits)
    with lst(2) k' show "k' = seq"
      using good_one_owner_steps [OF g] by blast
  qed
  then have "kept p (save_report p (d\<lparr>dbmap := AList.update seq ?v (dbmap d)\<rparr>)
      (Renamed old_n new_n) w)"
    by (intro kept_save [OF t']) simp
  with Some lst(1) show ?thesis
    by (simp add: rename_step_def Let_def)
qed

lemma op_rename_kept:
  assumes l: "load_db p w = Inr d" and g: "good_map (dbmap d)" and t: "tmp_name w \<noteq> p"
  shows "kept p (op_rename p old new w)"
proof -
  from g obtain c where b: "build_reverse_cache d = Inr c"
    by (auto simp: good_map_def build_reverse_cache_Inr)
  obtain r1 w1 where p1: "step_from_arg old w = (r1, w1)"
    by (cases "step_from_arg old w")
  then have s1: "same_store w w1" by (rule step_from_arg_same)
  show ?thesis
  proof (cases r1)
    case (Inl e)
    with l b p1 show ?thesis by (simp add: op_rename_def kept_Inl)
  next
    case n: (Inr old_n)
    obtain r2 w2 where p2: "known_step c old_n w1 = (r2, w2)"
      by (cases "known_step c old_n w1")
    then have s2: "same_store w w2"
      using s1 known_step_same same_store_trans by blast
    show ?thesis
    proof (cases r2)
      case (Inl e)
      with l b p1 n p2 show ?thesis by (simp add: op_rename_def kept_Inl)
    next
      case f: (Inr found)
      show ?thesis
      proof (cases found)
        case (Inl missing)
        with l b p1 n p2 f kept_unchanged [OF s2 l g] show ?thesis
          by (simp add: op_rename_def)
      next
        case s: (Inr s)
        obtain r3 w3 where p3: "step_from_arg new w2 = (r3, w3)"
          by (cases "step_from_arg new w2")
        then have s3: "same_store w w3"
          using s2 step_from_arg_same same_store_trans by blast
        show ?thesis
        proof (cases r3)
          case (Inl e)
          with l b p1 n p2 f s p3 show ?thesis by (simp add: op_rename_def kept_Inl)
        next
          case nn: (Inr new_n)
          obtain r4 w4 where p4: "unused_step c new_n w3 = (r4, w4)"
            by (cases "unused_step c new_n w3")
          then have s4: "same_store w w4"
            using s3 unused_step_same same_store_trans by blast
          show ?thesis
          proof (cases r4)
            case (Inl e)
            with l b p1 n p2 f s p3 nn p4 show ?thesis by (simp add: op_rename_def kept_Inl)
          next
            case u: (Inr unused)
            show ?thesis
            proof (cases unused)
              case (Inl taken)
              with l b p1 n p2 f s p3 nn p4 u kept_unchanged [OF s4 l g] show ?thesis
                by (simp add: op_rename_def)
            next
              case (Inr new_n')
              with p4 u have "c new_n' = None" by (simp add: unused_step_Inr)
              from rename_step_kept [OF g b l s4 t this]
              show ?thesis using l b p1 n p2 f s p3 nn p4 u Inr by (simp add: op_rename_def)
            qed
          qed
        qed
      qed
    qed
  qed
qed

lemma remove_step_kept:
  assumes g: "good_map (dbmap d)"
    and l: "load_db p w0 = Inr d" and ss: "same_store w0 w" and t: "tmp_name w0 \<noteq> p"
    and k: "seq \<noteq> []"
  shows "kept p (remove_step p d s seq yes w)"
proof (cases "map_of (dbmap d) seq")
  case None
  then show ?thesis by (simp add: remove_step_def kept_Inl)
next
  case (Some lst)
  from ss t have t': "tmp_name w \<noteq> p" by (simp add: same_store_def)
  let ?m1 = "AList.update seq (filter (\<lambda>x. x \<noteq> s) lst) (dbmap d)"
  from Some have "steps_of (dbmap d) seq = lst" by (rule steps_of_Some)
  then have g1: "good_map ?m1"
    by (intro good_filter_update [OF g k]) auto
  then have g2: "good_map (AList.delete seq ?m1)" by (rule good_delete)
  show ?thesis
  proof (cases "filter (\<lambda>x. x \<noteq> s) lst = []")
    case False
    have "kept p (save_report p (d\<lparr>dbmap := ?m1\<rparr>) (Removed s) w)"
      using g1 by (intro kept_save [OF t']) simp
    with Some False show ?thesis
      by (simp add: remove_step_def Let_def)
  next
    case True
    obtain r w1 where c: "(if yes then (Inr True, w) else confirm True w) = (r, w1)"
      by (cases "if yes then (Inr True, w) else confirm True w")
    then have "same_store w w1"
      using confirm_same same_store_refl by (auto split: if_splits)
    with t' have t1: "tmp_name w1 \<noteq> p" by (simp add: same_store_def)
    show ?thesis
    proof (cases r)
      case (Inl e)
      with Some True c show ?thesis
        by (simp add: remove_step_def Let_def kept_Inl)
    next
      case (Inr ans)
      from g1 g2 True have e: "good_map (AList.update seq [] (dbmap d))"
        "good_map (AList.delete seq (AList.update seq [] (dbmap d)))"
        by simp_all
      have "kept p (save_report p
          (d\<lparr>dbmap := (if ans then AList.delete seq (AList.update seq [] (dbmap d))
                        else AList.update seq [] (dbmap d))\<rparr>)
          (Removed s) w1)"
        using e by (intro kept_save [OF t1]) simp
      with Some True c Inr show ?thesis
        by (cases ans) (simp_all add: remove_step_def Let_def)
    qed
  qed
qed

lemma op_remove_kept:
  assumes l: "load_db p w = Inr d" and g: "good_map (dbmap d)" and t: "tmp_name w \<noteq> p"
  shows "kept p (op_remove p step yes w)"
proof -
  from g obtain c where b: "build_reverse_cache d = Inr c"
    by (auto simp: good_map_def build_reverse_cache_Inr)
  note un = kept_unchanged [OF same_store_refl l g]
  show ?thesis
  proof (cases "normalize_step_name step")
    case (Inl e)
    with l b un show ?thesis by (simp add: op_remove_def)
  next
    case n: (Inr s)
    show ?thesis
    proof (cases "truthy (c s)")
      case False
      with l b n un show ?thesis by (simp add: op_remove_def)
    next
      case True
      then obtain seq where seq: "c s = Some seq" "seq \<noteq> []"
        by (cases "c s") (simp_all add: truthy_def)
      obtain r w1 where c1: "(if \<not> yes then confirm True w else (Inr True, w)) = (r, w1)"
        by (cases "if \<not> yes then confirm True w else (Inr True, w)")
      then have s1: "same_store w w1"
        using confirm_same same_store_refl by (auto split: if_splits)
      show ?thesis
      proof (cases r)
        case (Inl e)
        with l b n True seq c1 show ?thesis by (simp add: op_remove_def kept_Inl)
      next
        case (Inr ans)
        show ?thesis
        proof (cases ans)
          case False
          with l b n True seq c1 Inr kept_unchanged [OF s1 l g] show ?thesis
            by (simp add: op_remove_def)
        next
          case yes: True
          from remove_step_kept [OF g l s1 t seq(2)]
          show ?thesis using l b n True seq c1 Inr yes by (simp add: op_remove_def)
        qed
      qed
    qed
  qed
qed

lemma gc_keys_good: "good_map m \<Longrightarrow> gc_keys ks m = Inr m' \<Longrightarrow> good_map m'"
proof (induction ks arbitrary: m)
  case Nil
  then show ?case by simp
next
  case (Cons k ks)
  show ?case
  proof (cases "map_of m k")
    case None
    with Cons.prems show ?thesis by simp
  next
    case (Some steps)
    with Cons.prems have "gc_keys ks (if steps = [] then AList.delete k m else m) = Inr m'"
      by simp
    moreover have "good_map (if steps = [] then AList.delete k m else m)"
      using Cons.prems(1) by (simp add: good_delete)
    ultimately show ?thesis by (rule Cons.IH [rotated])
  qed
qed

lemma op_gc_kept:
  assumes l: "load_db p w = Inr d" and g: "good_map (dbmap d)" and t: "tmp_name w \<noteq> p"
  shows "kept p (op_gc p w)"
proof (cases "gc_keys (map fst (dbmap d)) (dbmap d)")
  case (Inl e)
  with l show ?thesis by (simp add: op_gc_def kept_Inl)
next
  case (Inr m)
  with g have gm: "good_map m" by (rule gc_keys_good)
  show ?thesis
  proof (cases "length (dbmap d) = length m")
    case True
    with l Inr kept_unchanged [OF same_store_refl l g] show ?thesis
      by (simp add: op_gc_def Let_def)
  next
    case False
    have "kept p (save_report p (d\<lparr>dbmap := m\<rparr>) (GcRemoved (length (dbmap d) - length m)) w)"
      using gm by (intro kept_save [OF t]) simp
    with l Inr False show ?thesis
      by (simp add: op_gc_def Let_def)
  qed
qed

lemma kept_Inr:
  "kept p res \<Longrightarrow> res = (Inr r, w') \<Longrightarrow>
   \<exists>d'. load_db p w' = Inr d' \<and> distinct (map fst (dbmap d')) \<and> one_owner (dbmap d')
        \<and> [] \<notin> set (map fst (dbmap d'))"
  by (auto simp: kept_def good_map_def split: sum.splits)

text \<open>
  The invariant on a document whose sequence keys are not empty strings. When no step of the
  document at the path is listed under two different keys, every normal return of
  \<^verbatim>\<open>op_add\<close>, \<^verbatim>\<open>op_reassign\<close>, \<^verbatim>\<open>op_rename\<close>, \<^verbatim>\<open>op_remove\<close> or \<^verbatim>\<open>op_gc\<close>, whatever
  the arguments and the answers on the standard input, leaves at the path a document in
  which again no step is under two different keys, the keys are distinct and none is
  empty.
\<close>

theorem mutations_keep_one_owner:
  assumes "load_db p w = Inr d"
    and "distinct (map fst (dbmap d))" and "one_owner (dbmap d)"
    and "[] \<notin> set (map fst (dbmap d))"
    and "tmp_name w \<noteq> p"
  shows "(\<forall>r w'. op_add p w = (Inr r, w') \<longrightarrow>
            (\<exists>d'. load_db p w' = Inr d' \<and> distinct (map fst (dbmap d')) \<and> one_owner (dbmap d')
                  \<and> [] \<notin> set (map fst (dbmap d'))))
       \<and> (\<forall>step raw r w'. op_reassign p step raw w = (Inr r, w') \<longrightarrow>
            (\<exists>d'. load_db p w' = Inr d' \<and> distinct (map fst (dbmap d')) \<and> one_owner (dbmap d')
                  \<and> [] \<notin> set (map fst (dbmap d'))))
       \<and> (\<forall>old new r w'. op_rename p old new w = (Inr r, w') \<longrightarrow>
            (\<exists>d'. load_db p w' = Inr d' \<and> distinct (map fst (dbmap d')) \<and> one_owner (dbmap d')
                  \<and> [] \<notin> set (map fst (dbmap d'))))
       \<and> (\<forall>step yes r w'. op_remove p step yes w = (Inr r, w') \<longrightarrow>
            (\<exists>d'. load_db p w' = Inr d' \<and> distinct (map fst (dbmap d')) \<and> one_owner (dbmap d')
                  \<and> [] \<notin> set (map fst (dbmap d'))))
       \<and> (\<forall>r w'. op_gc p w = (Inr r, w') \<longrightarrow>
            (\<exists>d'. load_db p w' = Inr d' \<and> distinct (map fst (dbmap d')) \<and> one_owner (dbmap d')
                  \<and> [] \<notin> set (map fst (dbmap d'))))"
proof -
  from assms(2,3,4) have g: "good_map (dbmap d)" by (simp add: good_map_def)
  note l = assms(1) and t = assms(5)
  show ?thesis
    using kept_Inr [OF op_add_kept [OF l g t]]
      kept_Inr [OF op_reassign_kept [OF l g t]]
      kept_Inr [OF op_rename_kept [OF l g t]]
      kept_Inr [OF op_remove_kept [OF l g t]]
      kept_Inr [OF op_gc_kept [OF l g t]]
    by (intro conjI allI impI) blast+
qed

theorem mutations_keep_one_owner_witness:
  "load_db ''sequences.json'' adding_world
     = Inr \<lparr>version = 1, dbmap = [(''UP'', [''open menu''])]\<rparr>
   \<and> distinct (map fst [(''UP'', [''open menu''])])
   \<and> one_owner [(''UP'', [''open menu''])]
   \<and> [] \<notin> set (map fst [(''UP'', [''open menu''])])
   \<and> tmp_name adding_world \<noteq> ''sequences.json''
   \<and> fst (op_add ''sequences.json'' adding_world) = Inr (Added ''close menu'' ''DOWN'')
   \<and> (\<exists>d'. load_db ''sequences.json'' (snd (op_add ''sequences.json'' adding_world)) = Inr d'
          \<and> one_owner (dbmap d'))"
proof -
  let ?d = "\<lparr>version = 1, dbmap = [(''UP'', [''open menu''])]\<rparr>"
  have h1: "load_db ''sequences.json'' adding_world = Inr ?d"
    by (simp add: load_db_def adding_world_def)
  have h2: "distinct (map fst (dbmap ?d))" by simp
  have h3: "one_owner (dbmap ?d)" by (simp add: one_owner_def all_steps_def owners_def)
  have h4: "[] \<notin> set (map fst (dbmap ?d))" by simp
  have h5: "tmp_name adding_world \<noteq> ''sequences.json''" by (simp add: adding_world_def)
  have r: "fst (op_add ''sequences.json'' adding_world) = Inr (Added ''close menu'' ''DOWN'')"
    by code_simp
  then have run: "op_add ''sequences.json'' adding_world
      = (Inr (Added ''close menu'' ''DOWN''), snd (op_add ''sequences.json'' adding_world))"
    by (metis prod.collapse)
  from mutations_keep_one_owner [OF h1 h2 h3 h4 h5] run
  have "\<exists>d'. load_db ''sequences.json'' (snd (op_add ''sequences.json'' adding_world)) = Inr d'
      \<and> one_owner (dbmap d')"
    by blast
  with h1 h2 h3 h4 h5 r show ?thesis by simp
qed

text \<open>
  Claim C1: every mutating operation that returns normally on a document with no step
  under two different sequence keys leaves a document with no step under two different
  sequence keys. This fails for \<^verbatim>\<open>op_add\<close> on a step listed under the empty string. In
  the document whose one key is the empty string no step is under two keys; \<^verbatim>\<open>op_add\<close>
  with the answers \<open>open menu\<close> and \<open>down\<close> asks for no other name, reports the step as
  added and writes a document with \<open>open menu\<close> under both keys. Its test
  \<^verbatim>\<open>if existing and existing != seq\<close> takes the empty key that the reverse cache holds
  for no key at all, where the test \<^verbatim>\<open>new_name in step_to_seq\<close> of its own loop and the
  other operations (lemma \<open>empty_key_owns_its_step_elsewhere\<close>) take it for an owner.
\<close>

theorem add_duplicates_step_under_empty_key:
  "one_owner [('''', [''open menu''])]
   \<and> files empty_key_world ''sequences.json''
       = Some (Whole \<lparr>version = 1, dbmap = [('''', [''open menu''])]\<rparr>)
   \<and> stdin empty_key_world = [''open menu'', ''down'']
   \<and> fst (op_add ''sequences.json'' empty_key_world) = Inr (Added ''open menu'' ''DOWN'')
   \<and> files (snd (op_add ''sequences.json'' empty_key_world)) ''sequences.json''
       = Some (Whole \<lparr>version = 1,
                       dbmap = [('''', [''open menu'']), (''DOWN'', [''open menu''])]\<rparr>)
   \<and> \<not> one_owner [('''', [''open menu'']), (''DOWN'', [''open menu''])]"
  by code_simp

section \<open>Running an operation again\<close>




lemma load_db_saved:
  "load_db p (w\<lparr>files := (files w)(p \<mapsto> Whole d', t := None)\<rparr>) = (if t = p then load_db p (w\<lparr>files := (files w)(p := None)\<rparr>) else Inr d')"
  by (simp add: load_db_def)


lemma input_Cons: "stdin w = line # ins \<Longrightarrow> input w = (Inr line, w\<lparr>stdin := ins\<rparr>)"
  by (simp add: input_def)

lemma prompt_valid_Cons:
  "stdin w = line # ins \<Longrightarrow> normalize_step_name (strip line) = Inr step \<Longrightarrow>
   prompt_valid_step_name w = (Inr step, w\<lparr>stdin := ins\<rparr>)"
  by (simp add: prompt_valid_step_name_def)

lemma op_add_two_answers:
  assumes "load_db p w = Inr d" and "build_reverse_cache d = Inr c"
    and "stdin w = l1 # l2 # rest"
    and "normalize_step_name (strip l1) = Inr step"
    and "canonicalize_sequence (strip l2) = Inr seq"
  shows "op_add p w = add_step p d c step seq (w\<lparr>stdin := rest\<rparr>)"
proof -
  have a: "prompt_valid_step_name w = (Inr step, w\<lparr>stdin := l2 # rest\<rparr>)"
    using assms(3,4) by (rule prompt_valid_Cons)
  have b: "input (w\<lparr>stdin := l2 # rest\<rparr>) = (Inr l2, w\<lparr>stdin := rest\<rparr>)"
    using input_Cons [of "w\<lparr>stdin := l2 # rest\<rparr>" l2 rest] by simp
  show ?thesis
    using assms(1,2,5) by (simp add: op_add_def a b)
qed

lemma cache_of_listed:
  assumes g: "good_map (dbmap d)" and s: "s \<in> set (steps_of (dbmap d) k)"
  shows "\<exists>c. build_reverse_cache d = Inr c \<and> c s = Some k"
proof -
  from g obtain c where b: "build_reverse_cache d = Inr c"
    by (auto simp: good_map_def build_reverse_cache_Inr)
  from g have "distinct (map fst (dbmap d))" by (simp add: good_map_def)
  with s have "k \<in> set (owners (dbmap d) s)"
    by (simp add: in_owners_steps_of)
  with b show ?thesis
    by (simp add: build_reverse_cache_Some)
qed







lemma save_report_Inr:
  assumes "save_report p d' r w = (Inr r', w')" and "tmp_name w \<noteq> p"
  shows "load_db p w' = Inr d'" and "same_store w' (w'\<lparr>stdin := ins\<rparr>)"
proof -
  from assms(1) have nf: "fault w = NoFault"
    by (auto simp: save_report_def atomic_save_def split: if_splits)
  from save_report_ok [OF nf assms(2), of d' r] assms
  show "load_db p w' = Inr d'" by (auto simp: load_db_def)
  show "same_store w' (w'\<lparr>stdin := ins\<rparr>)" by (rule same_store_stdin)
qed

lemma save_report_report: "save_report p d r w = (Inr r', w') \<Longrightarrow> r' = r"
  by (cases "atomic_save p d w"; cases "fst (atomic_save p d w)") (auto simp: save_report_def)







section \<open>Adding a step that another sequence owns\<close>

lemma add_step_report:
  assumes "c step \<noteq> Some seq" and "add_step p d c step seq w = (Inr r, w')"
  shows "\<exists>n. r = Added n seq"
proof (cases "truthy (c step)")
  case True
  obtain x rest' where pk: "pick_new_name c (stdin w) = (x, rest')"
    by (cases "pick_new_name c (stdin w)")
  show ?thesis
  proof (cases x)
    case (Inl e)
    with assms True pk show ?thesis by (simp add: add_step_def)
  next
    case (Inr n)
    with assms True pk
    have "save_report p (d\<lparr>dbmap := setdefault_append (dbmap d) seq n\<rparr>) (Added n seq)
            (w\<lparr>stdin := rest'\<rparr>) = (Inr r, w')"
      by (simp add: add_step_def)
    then have "r = Added n seq" by (rule save_report_report)
    then show ?thesis by blast
  qed
next
  case False
  with assms
  have "save_report p (d\<lparr>dbmap := setdefault_append (dbmap d) seq step\<rparr>) (Added step seq) w
          = (Inr r, w')"
    by (simp add: add_step_def)
  then have "r = Added step seq" by (rule save_report_report)
  then show ?thesis by blast
qed

lemma add_step_other_owner:
  assumes "c step = Some A" and "A \<noteq> []" and "A \<noteq> seq"
    and "add_step p d c step seq w = (Inr r, w1)" and "tmp_name w \<noteq> p"
  shows "\<exists>n rest'. pick_new_name c (stdin w) = (Inr n, rest') \<and> r = Added n seq
           \<and> load_db p w1 = Inr (d\<lparr>dbmap := setdefault_append (dbmap d) seq n\<rparr>)"
proof -
  obtain x rest' where pk: "pick_new_name c (stdin w) = (x, rest')"
    by (cases "pick_new_name c (stdin w)")
  from assms(1,2) have tr: "truthy (c step)" by (simp add: truthy_def)
  show ?thesis
  proof (cases x)
    case (Inl e)
    with assms(1,3,4) tr pk show ?thesis by (simp add: add_step_def)
  next
    case (Inr n)
    let ?d1 = "d\<lparr>dbmap := setdefault_append (dbmap d) seq n\<rparr>"
    from Inr assms(1,3,4) tr pk
    have sv: "save_report p ?d1 (Added n seq) (w\<lparr>stdin := rest'\<rparr>) = (Inr r, w1)"
      by (simp add: add_step_def)
    from assms(5) have t: "tmp_name (w\<lparr>stdin := rest'\<rparr>) \<noteq> p" by simp
    from sv have "r = Added n seq" by (rule save_report_report)
    moreover from sv t have "load_db p w1 = Inr ?d1" by (rule save_report_Inr(1))
    ultimately show ?thesis using pk Inr by blast
  qed
qed

text \<open>
  When the step of the first answer is listed under a sequence other than the one of the
  second answer, a run of \<^verbatim>\<open>op_add\<close> that returns normally has stored a replacement name
  that was in no list, and the step stays where it was. A second run on the resulting
  document with the same answers therefore finds the step under the other sequence again:
  whatever it does, it does not report that nothing changed.
\<close>

lemma add_again_after_other_owner:
  assumes l: "load_db p w = Inr d" and g: "good_map (dbmap d)"
    and b: "build_reverse_cache d = Inr c"
    and i: "stdin w = l1 # l2 # rest"
    and n: "normalize_step_name (strip l1) = Inr step"
    and q: "canonicalize_sequence (strip l2) = Inr seq"
    and own: "c step = Some A" "A \<noteq> seq"
    and t: "tmp_name w \<noteq> p"
    and run: "op_add p w = (Inr r1, w1)"
  shows "(\<exists>n'. r1 = Added n' seq \<and> n' \<noteq> step \<and> n' \<notin> set (all_steps (dbmap d)))
       \<and> (\<forall>x y. fst (op_add p (w1\<lparr>stdin := stdin w\<rparr>)) \<noteq> Inr (NoChange x y))"
proof -
  note A = good_cache_Some [OF g b own(1)]
  from run have run': "add_step p d c step seq (w\<lparr>stdin := rest\<rparr>) = (Inr r1, w1)"
    unfolding op_add_two_answers [OF l b i n q] .
  from t have t': "tmp_name (w\<lparr>stdin := rest\<rparr>) \<noteq> p" by simp
  from add_step_other_owner [OF own(1) A(1) own(2) run' t']
  obtain n' rest' where pk: "pick_new_name c (stdin (w\<lparr>stdin := rest\<rparr>)) = (Inr n', rest')"
    and r1: "r1 = Added n' seq"
    and l1: "load_db p w1 = Inr (d\<lparr>dbmap := setdefault_append (dbmap d) seq n'\<rparr>)"
    by blast
  let ?d1 = "d\<lparr>dbmap := setdefault_append (dbmap d) seq n'\<rparr>"
  from pk have cn: "c n' = None" by (rule pick_new_name_Inr)
  with own(1) have ne: "n' \<noteq> step" by auto
  from b cn have fresh: "n' \<notin> set (all_steps (dbmap d))" by (rule good_cache_None)
  from q have sq: "seq \<noteq> []" by (rule canonicalize_sequence_nonempty)
  from g sq fresh have "good_map (setdefault_append (dbmap d) seq n')"
    by (rule good_setdefault_append)
  then have g1: "good_map (dbmap ?d1)" by simp
  from A(2) have "step \<in> set (steps_of (dbmap d) A)" by blast
  with own(2) have "step \<in> set (steps_of (dbmap ?d1) A)"
    by (simp add: setdefault_append_eq steps_of_update)
  from cache_of_listed [OF g1 this] obtain c1
    where b1: "build_reverse_cache ?d1 = Inr c1" and c1: "c1 step = Some A" by blast
  from l1 have l1': "load_db p (w1\<lparr>stdin := stdin w\<rparr>) = Inr ?d1"
    by (simp add: load_db_def)
  from i have i': "stdin (w1\<lparr>stdin := stdin w\<rparr>) = l1 # l2 # rest" by simp
  note second = op_add_two_answers [OF l1' b1 i' n q]
  from c1 own(2) have other: "c1 step \<noteq> Some seq" by simp
  have "fst (op_add p (w1\<lparr>stdin := stdin w\<rparr>)) \<noteq> Inr (NoChange x y)" for x y
  proof
    assume "fst (op_add p (w1\<lparr>stdin := stdin w\<rparr>)) = Inr (NoChange x y)"
    then have "add_step p ?d1 c1 step seq (w1\<lparr>stdin := stdin w\<rparr>\<lparr>stdin := rest\<rparr>)
        = (Inr (NoChange x y), snd (op_add p (w1\<lparr>stdin := stdin w\<rparr>)))"
      unfolding second by (metis prod.collapse)
    from add_step_report [OF other this] show False by simp
  qed
  with r1 ne fresh show ?thesis by blast
qed

section \<open>Which operations check the store: the statement\<close>








end
